theory Spec2Isabelle
  imports Complex_Main "HOL-Library.Signed_Division"
begin

section \<open>Points (types/point.ts)\<close>

text \<open>
  Coordinates are JavaScript numbers; they are modelled as real numbers, so every
  statement below is about exact arithmetic. A \<^verbatim>\<open>Point\<close> here is the value of a point
  object; the store model further down keeps the objects' identities.
\<close>

datatype Point = Point (px: real) (py: real)

definition add :: "Point \<Rightarrow> Point \<Rightarrow> Point" where
  "add a p = Point (px a + px p) (py a + py p)"

definition subtract :: "Point \<Rightarrow> Point \<Rightarrow> Point" where
  "subtract a p = Point (px a - px p) (py a - py p)"

definition scale :: "Point \<Rightarrow> real \<Rightarrow> Point" where
  "scale a f = Point (px a * f) (py a * f)"

definition plength :: "Point \<Rightarrow> real" where
  "plength a = sqrt (px a * px a + py a * py a)"

definition normalize :: "Point \<Rightarrow> real \<Rightarrow> Point" where
  "normalize a len =
     (let d = plength a
      in if d > 0 then Point ((px a / d) * len) ((py a / d) * len) else a)"

definition norm_to :: "Point \<Rightarrow> real \<Rightarrow> Point" where
  "norm_to a len = normalize a len"

definition dot :: "Point \<Rightarrow> Point \<Rightarrow> real" where
  "dot a p = px a * px p + py a * py p"

definition rotate90 :: "Point \<Rightarrow> Point" where
  "rotate90 a = Point (- py a) (px a)"

definition distance :: "Point \<Rightarrow> Point \<Rightarrow> real" where
  "distance a b = (let dx = px a - px b; dy = py a - py b in sqrt (dx * dx + dy * dy))"

section \<open>Line helpers (geom/geom-utils.ts)\<close>

text \<open>
  \<^verbatim>\<open>intersectLines\<close> returns the two line parameters packed in a point, or \<^verbatim>\<open>null\<close> for
  parallel lines.
\<close>

definition intersectLines ::
  "real \<Rightarrow> real \<Rightarrow> real \<Rightarrow> real \<Rightarrow> real \<Rightarrow> real \<Rightarrow> real \<Rightarrow> real \<Rightarrow> Point option" where
  "intersectLines x1 y1 dx1 dy1 x2 y2 dx2 dy2 =
     (let d = dx1 * dy2 - dy1 * dx2 in
      if d = 0 then None
      else
        (let t2 = (dy1 * (x2 - x1) - dx1 * (y2 - y1)) / d;
             t1 = (if dx1 \<noteq> 0 then (x2 - x1 + dx2 * t2) / dx1
                   else (y2 - y1 + dy2 * t2) / dy1)
         in Some (Point t1 t2)))"

definition interpolate :: "Point \<Rightarrow> Point \<Rightarrow> real \<Rightarrow> Point" where
  "interpolate p1 p2 ratio =
     (let d = subtract p2 p1 in Point (px p1 + px d * ratio) (py p1 + py d * ratio))"

definition scalar :: "real \<Rightarrow> real \<Rightarrow> real \<Rightarrow> real \<Rightarrow> real" where
  "scalar x1 y1 x2 y2 = x1 * x2 + y1 * y2"

definition cross :: "real \<Rightarrow> real \<Rightarrow> real \<Rightarrow> real \<Rightarrow> real" where
  "cross x1 y1 x2 y2 = x1 * y2 - y1 * x2"

section \<open>Polygons (geom/polygon.ts)\<close>

text \<open>
  A polygon is its ordered vertex list. \<^verbatim>\<open>new Polygon(vs)\<close> copies the array it is
  given, which on values is the identity.
\<close>

type_synonym Polygon = "Point list"

text \<open>The signed area. The loop adds one cross product per edge, starting with the closing edge.\<close>

fun square_loop :: "real \<Rightarrow> Point \<Rightarrow> Point list \<Rightarrow> real" where
  "square_loop s v2 [] = s"
| "square_loop s v2 (v # vs) = square_loop (s + (px v2 * py v - px v * py v2)) v vs"

definition square :: "Polygon \<Rightarrow> real" where
  "square verts =
     (if length verts < 3 then 0
      else
        (let v1 = last verts; v2 = hd verts;
             s = px v1 * py v2 - px v2 * py v1
         in square_loop s v2 (tl verts) * 0.5))"

text \<open>\<^verbatim>\<open>slice(a, b)\<close> and \<^verbatim>\<open>slice(a)\<close> of JavaScript arrays, for indices that are not negative.\<close>

definition slice :: "'a list \<Rightarrow> nat \<Rightarrow> nat \<Rightarrow> 'a list" where
  "slice xs a b = drop a (take b xs)"

definition slice_from :: "'a list \<Rightarrow> nat \<Rightarrow> 'a list" where
  "slice_from xs a = drop a xs"

definition vectori :: "Polygon \<Rightarrow> nat \<Rightarrow> Point" where
  "vectori vs i = subtract (vs ! (if i = length vs - 1 then 0 else i + 1)) (vs ! i)"

text \<open>
  The scanning loop of \<^verbatim>\<open>cut\<close>: the line through \<open>p1\<close> and \<open>p2\<close> is intersected with
  every edge in turn; the first two edges it meets (with the parameter along the edge in
  \<open>[0, 1]\<close>) are recorded, and all of them are counted.
\<close>

record cut_scan =
  edge1 :: nat
  ratio1 :: real
  edge2 :: nat
  ratio2 :: real
  cnt :: nat

definition edge_hit :: "Point \<Rightarrow> Point \<Rightarrow> Polygon \<Rightarrow> nat \<Rightarrow> Point option" where
  "edge_hit p1 p2 vs i =
     (let x1 = px p1; y1 = py p1; dx1 = px p2 - x1; dy1 = py p2 - y1;
          v0 = vs ! i; v1 = vs ! ((i + 1) mod length vs);
          x2 = px v0; y2 = py v0; dx2 = px v1 - x2; dy2 = py v1 - y2
      in intersectLines x1 y1 dx1 dy1 x2 y2 dx2 dy2)"

definition cut_step :: "Point \<Rightarrow> Point \<Rightarrow> Polygon \<Rightarrow> cut_scan \<Rightarrow> nat \<Rightarrow> cut_scan" where
  "cut_step p1 p2 vs st i =
     (case edge_hit p1 p2 vs i of
        None \<Rightarrow> st
      | Some t \<Rightarrow>
          if py t \<ge> 0 \<and> py t \<le> 1 then
            (if cnt st = 0 then st\<lparr>edge1 := i, ratio1 := px t, cnt := cnt st + 1\<rparr>
             else if cnt st = 1 then st\<lparr>edge2 := i, ratio2 := px t, cnt := cnt st + 1\<rparr>
             else st\<lparr>cnt := cnt st + 1\<rparr>)
          else st)"

definition scan_edges :: "Point \<Rightarrow> Point \<Rightarrow> Polygon \<Rightarrow> cut_scan" where
  "scan_edges p1 p2 vs =
     foldl (cut_step p1 p2 vs)
       \<lparr>edge1 = 0, ratio1 = 0, edge2 = 0, ratio2 = 0, cnt = 0\<rparr> [0..<length vs]"

text \<open>
  \<^verbatim>\<open>cut\<close> and \<^verbatim>\<open>peel\<close> call each other: \<^verbatim>\<open>cut\<close> peels both halves when the gap is
  positive, and \<^verbatim>\<open>peel\<close> cuts with gap 0. \<^verbatim>\<open>peel(v1, d)\<close> looks its vertex up by object
  identity; it is modelled with the index of that vertex. In \<^verbatim>\<open>cut\<close> the vertex passed
  is the intersection point just pushed to the end of the half, a new object, whose index
  is therefore the last one.
\<close>

function cut :: "Polygon \<Rightarrow> Point \<Rightarrow> Point \<Rightarrow> real \<Rightarrow> Polygon list"
  and peel :: "Polygon \<Rightarrow> nat \<Rightarrow> real \<Rightarrow> Polygon" where
  "cut vs p1 p2 gap =
     (let x1 = px p1; y1 = py p1; dx1 = px p2 - x1; dy1 = py p2 - y1;
          sc = scan_edges p1 p2 vs
      in if cnt sc = 2 then
           (let dir = subtract p2 p1;
                point1 = add p1 (scale dir (ratio1 sc));
                point2 = add p1 (scale dir (ratio2 sc));
                half1 = point1 # slice vs (edge1 sc + 1) (edge2 sc + 1) @ [point2];
                half2 = point2 # (slice_from vs (edge2 sc + 1) @ slice vs 0 (edge1 sc + 1))
                          @ [point1];
                h1 = (if gap > 0 then peel half1 (length half1 - 1) (gap / 2) else half1);
                h2 = (if gap > 0 then peel half2 (length half2 - 1) (gap / 2) else half2);
                v = vectori vs (edge1 sc)
            in if cross dx1 dy1 (px v) (py v) > 0 then [h1, h2] else [h2, h1])
         else [vs])"
| "peel vs i1 d =
     (let i2 = (if i1 = length vs - 1 then 0 else i1 + 1);
          v1 = vs ! i1; v2 = vs ! i2;
          v = subtract v2 v1;
          n = norm_to (rotate90 v) d
      in hd (cut vs (add v1 n) (add v2 n) 0))"
  by pat_completeness auto
termination
  by (relation "measure (\<lambda>a. case a of
        Inl (vs, p1, p2, gap) \<Rightarrow> if gap > 0 then 2 else 0
      | Inr (vs, i1, d) \<Rightarrow> 1)") auto

declare cut.simps [simp del] peel.simps [simp del]

section \<open>Generation parameters (generator/generation-params.ts)\<close>

record GenerationParams =
  nPatches :: int
  plazaNeeded :: bool
  citadelNeeded :: bool
  wallsNeeded :: bool
  templeNeeded :: bool
  shantyNeeded :: bool
  capitalNeeded :: bool
  seed :: int
  roadEntryPoints :: "Point list option"
  riverPath :: "Point list option"
  coastlineGeometry :: "Point list list option"

section \<open>Seeded pseudo-random generator (utils/random.ts)\<close>

text \<open>
  \<^verbatim>\<open>SeededRandom\<close> is a Lehmer generator: \<^verbatim>\<open>seed = seed * 48271 % 2147483647\<close>.
  The state is private and holds an integer: the constructor makes it at least 1, and
  \<^verbatim>\<open>next\<close> keeps it between 0 and the modulus, so it is modelled as a natural number. The
  product stays below \<open>2^53\<close> for every state below the modulus (and for every seed
  below \<open>2^37\<close>), so the arithmetic of the source is exact. The seed given to the constructor is any integer; JavaScript's \<^verbatim>\<open>%\<close>
  takes the sign of the dividend, which is \<open>smod\<close>. The floating quotient
  \<^verbatim>\<open>next() / N\<close> is modelled as a real number.
\<close>

record SeededRandom =
  seed :: nat

definition SeededRandom_G :: nat where
  "SeededRandom_G = 48271"

definition SeededRandom_N :: nat where
  "SeededRandom_N = 2147483647"

text \<open>
  The constructor. The first argument is the optional \<^verbatim>\<open>seed\<close> parameter, the second
  the value \<^verbatim>\<open>Date.now()\<close> would return, which the source reads only when no seed is given.
\<close>

definition SeededRandom_new :: "int option \<Rightarrow> int \<Rightarrow> SeededRandom" where
  "SeededRandom_new sd now =
     (let s = (case sd of Some v \<Rightarrow> v | None \<Rightarrow> now smod int SeededRandom_N)
      in \<lparr>seed = (if s \<le> 0 then 1 else nat s)\<rparr>)"

definition getSeed :: "SeededRandom \<Rightarrow> nat" where
  "getSeed r = seed r"

text \<open>Every drawing method returns the value drawn and the generator after the draw.\<close>

definition rng_next :: "SeededRandom \<Rightarrow> nat \<times> SeededRandom" where
  "rng_next r =
     (let s = (seed r * SeededRandom_G) mod SeededRandom_N
      in (s, r\<lparr>seed := s\<rparr>))"

definition rng_float :: "SeededRandom \<Rightarrow> real \<times> SeededRandom" where
  "rng_float r = (let (s, r1) = rng_next r in (real s / real SeededRandom_N, r1))"

definition rng_normal :: "SeededRandom \<Rightarrow> real \<times> SeededRandom" where
  "rng_normal r =
     (let (a, r1) = rng_float r; (b, r2) = rng_float r1; (c, r3) = rng_float r2
      in ((a + b + c) / 3, r3))"

definition rng_int :: "SeededRandom \<Rightarrow> real \<Rightarrow> real \<Rightarrow> int \<times> SeededRandom" where
  "rng_int r lo hi =
     (let (s, r1) = rng_next r
      in (\<lfloor>lo + (real s / real SeededRandom_N) * (hi - lo)\<rfloor>, r1))"

definition rng_bool :: "SeededRandom \<Rightarrow> real \<Rightarrow> bool \<times> SeededRandom" where
  "rng_bool r chance = (let (f, r1) = rng_float r in (f < chance, r1))"

definition rng_fuzzy :: "SeededRandom \<Rightarrow> real \<Rightarrow> real \<times> SeededRandom" where
  "rng_fuzzy r f =
     (if f = 0 then (1 / 2, r)
      else (let (n, r1) = rng_normal r in ((1 - f) / 2 + f * n, r1)))"


section \<open>The settlement pipeline (generator/model.ts)\<close>

datatype WardType = Craftsmen | Merchant | Cathedral | Slum | Patriciate | Administration
  | Military | GateWard | Market | Castle | Park | Farm | Empty

record Ward =
  geometry :: "Polygon list"
  wtype :: WardType

record Patch =
  shape :: Polygon
  ward :: "Ward option"
  withinWalls :: bool
  withinCity :: bool

record CurtainWall =
  wall_shape :: Polygon
  segments :: "bool list"
  wall_gates :: "Point list"
  towers :: "Point list"
  real_wall :: bool
  wall_patches :: "Patch list"

typedecl Topology

datatype error = Error string

definition MAX_ATTEMPTS :: nat where
  "MAX_ATTEMPTS = 20"

record Model =
  rng :: SeededRandom
  nPatches_m :: int
  plazaNeeded_m :: bool
  citadelNeeded_m :: bool
  wallsNeeded_m :: bool
  params :: GenerationParams
  topology :: "Topology option"
  patches :: "Patch list"
  waterbody :: "Patch list"
  inner :: "Patch list"
  citadel :: "Patch option"
  plaza :: "Patch option"
  center :: Point
  border :: "CurtainWall option"
  wall :: "CurtainWall option"
  cityRadius :: real
  gates :: "Point list"
  arteries :: "Polygon list"
  streets :: "Polygon list"
  roads :: "Polygon list"

text \<open>
  The constructor of \<^verbatim>\<open>Model\<close>. The generator is built from \<^verbatim>\<open>params.seed\<close>, which the
  interface declares as a number that is always present; the second argument is the clock
  value the generator's constructor would read for an absent seed.
\<close>

definition Model_new :: "GenerationParams \<Rightarrow> int \<Rightarrow> Model" where
  "Model_new p now =
     \<lparr>rng = SeededRandom_new (Some (GenerationParams.seed p)) now,
      nPatches_m = nPatches p,
      plazaNeeded_m = plazaNeeded p,
      citadelNeeded_m = citadelNeeded p,
      wallsNeeded_m = wallsNeeded p,
      params = p,
      topology = None, patches = [], waterbody = [], inner = [],
      citadel = None, plaza = None, center = Point 0 0,
      border = None, wall = None, cityRadius = 0, gates = [],
      arteries = [], streets = [], roads = []\<rparr>"

text \<open>The assignments of the \<^verbatim>\<open>catch\<close> block of \<^verbatim>\<open>generate\<close>, in the source's order.\<close>

definition reset_state :: "Model \<Rightarrow> Model" where
  "reset_state m =
     m\<lparr>patches := [], inner := [], citadel := None, plaza := None,
       border := None, wall := None, gates := [], streets := [], roads := [],
       arteries := [], topology := None\<rparr>"

text \<open>
  \<^verbatim>\<open>generate\<close> is modelled for an arbitrary six-phase \<^verbatim>\<open>build\<close>: a state transformer that
  returns the model as the phases left it, together with the exception thrown, if any
  (\<^verbatim>\<open>build\<close> mutates the model in place, so what it did before throwing stays).
  \<^verbatim>\<open>catch (e)\<close> catches every exception.
\<close>

type_synonym build_fn = "Model \<Rightarrow> error option \<times> Model"

function generate_from :: "build_fn \<Rightarrow> nat \<Rightarrow> Model \<Rightarrow> error + Model" where
  "generate_from build attempt m =
     (if attempt < MAX_ATTEMPTS then
        (case build m of
           (None, m1) \<Rightarrow> Inr m1
         | (Some e, m1) \<Rightarrow> generate_from build (attempt + 1) (reset_state m1))
      else Inl (Error ''Failed to generate after 20 attempts''))"
  by pat_completeness auto
termination
  by (relation "measure (\<lambda>(build, attempt, m). MAX_ATTEMPTS - attempt)") auto

definition generate :: "build_fn \<Rightarrow> Model \<Rightarrow> error + Model" where
  "generate build m = generate_from build 0 m"

text \<open>
  The model in which attempt \<open>k\<close> starts when every earlier attempt has failed: the
  state the previous attempt left, after the reset.
\<close>

fun attempt_start :: "build_fn \<Rightarrow> Model \<Rightarrow> nat \<Rightarrow> Model" where
  "attempt_start build m 0 = m"
| "attempt_start build m (Suc k) = reset_state (snd (build (attempt_start build m k)))"

definition attempt_fails :: "build_fn \<Rightarrow> Model \<Rightarrow> nat \<Rightarrow> bool" where
  "attempt_fails build m k = (fst (build (attempt_start build m k)) \<noteq> None)"

text \<open>
  A concrete \<^verbatim>\<open>build\<close> for exercising the retry loop: it draws once from the generator,
  records a gate, and throws the citadel failure when it was entered with generator
  state 1.
\<close>

definition build_failing_at_one :: build_fn where
  "build_failing_at_one m =
     (if getSeed (rng m) = 1 then Some (Error ''Bad citadel shape!'') else None,
      m\<lparr>rng := snd (rng_next (rng m)), gates := [Point 0 0]\<rparr>)"

definition sample_params :: GenerationParams where
  "sample_params =
     \<lparr>nPatches = 15, plazaNeeded = True, citadelNeeded = False, wallsNeeded = True,
      templeNeeded = False, shantyNeeded = False, capitalNeeded = False, seed = 0,
      roadEntryPoints = None, riverPath = None, coastlineGeometry = None\<rparr>"

subsection \<open>Notions used to state the properties of \<^verbatim>\<open>cut\<close>\<close>

text \<open>
  Edge \<open>i\<close> counts as crossed when the line is not parallel to it and meets the line
  through the edge at a parameter in \<open>[0, 1]\<close>: the test of the scanning loop.
\<close>

definition is_hit :: "Point \<Rightarrow> Point \<Rightarrow> Polygon \<Rightarrow> nat \<Rightarrow> bool" where
  "is_hit p1 p2 vs i =
     (case edge_hit p1 p2 vs i of None \<Rightarrow> False | Some t \<Rightarrow> py t \<ge> 0 \<and> py t \<le> 1)"

definition crossings :: "Point \<Rightarrow> Point \<Rightarrow> Polygon \<Rightarrow> nat" where
  "crossings p1 p2 vs = length (filter (is_hit p1 p2 vs) [0..<length vs])"








text \<open>The static constructor \<^verbatim>\<open>Polygon.rect\<close>.\<close>

definition rect :: "real \<Rightarrow> real \<Rightarrow> Polygon" where
  "rect w h = [Point (- w / 2) (- h / 2), Point (w / 2) (- h / 2),
               Point (w / 2) (h / 2), Point (- w / 2) (h / 2)]"


section \<open>Cutting helpers (geom/cutter.ts)\<close>

text \<open>
  \<^verbatim>\<open>bisect\<close> is given a vertex object of the polygon and looks up its successor with
  \<^verbatim>\<open>poly.next\<close>, by identity. The vertex is passed here as its index; the two agree on
  polygons whose vertex objects are pairwise distinct.
\<close>

definition bisect :: "Polygon \<Rightarrow> nat \<Rightarrow> real \<Rightarrow> real \<Rightarrow> real \<Rightarrow> Polygon list" where
  "bisect poly i ratio angle gap =
     (let vertex = poly ! i;
          nxt = poly ! ((i + 1) mod length poly);
          p1 = interpolate vertex nxt ratio;
          d = subtract nxt vertex;
          cosB = cos angle;
          sinB = sin angle;
          vx = px d * cosB - py d * sinB;
          vy = py d * cosB + px d * sinB;
          p2 = Point (px p1 - vy) (py p1 + vx)
      in cut poly p1 p2 gap)"

section \<open>Alley subdivision (wards/ward.ts)\<close>

definition MAIN_STREET :: real where
  "MAIN_STREET = 2.0"

definition REGULAR_STREET :: real where
  "REGULAR_STREET = 1.0"

definition ALLEY :: real where
  "ALLEY = 0.6"

text \<open>
  The search for the longest edge: \<^verbatim>\<open>forEdge\<close> visits the edges in order and a strictly
  longer edge replaces the current one, so the first longest edge wins. The result is
  the index of its first vertex, \<^verbatim>\<open>null\<close> for a polygon without vertices.
\<close>

definition longest_edge :: "Polygon \<Rightarrow> nat option" where
  "longest_edge p =
     fst (foldl
       (\<lambda>(v, maxLength) i.
          (let len = distance (p ! i) (p ! ((i + 1) mod length p))
           in if len > maxLength then (Some i, len) else (v, maxLength)))
       (None, - 1) [0..<length p])"

text \<open>
  The loop over the halves, with the buildings collected so far and the generator as its
  state. An exception ends the loop.
\<close>

fun each_half ::
  "(Polygon \<Rightarrow> 'a \<Rightarrow> (error + 'a) option) \<Rightarrow> Polygon list \<Rightarrow> 'a \<Rightarrow> (error + 'a) option" where
  "each_half f [] acc = Some (Inr acc)"
| "each_half f (h # hs) acc =
     Option.bind (f h acc) (\<lambda>r. case r of Inl e \<Rightarrow> Some (Inl e) | Inr acc1 \<Rightarrow> each_half f hs acc1)"

lemma each_half_mono [partial_function_mono]:
  assumes "\<And>h acc. mono_option (\<lambda>g. F g h acc)"
  shows "mono_option (\<lambda>g. each_half (F g) hs acc)"
proof (induction hs arbitrary: acc)
  case Nil
  show ?case by (simp add: option.const_mono)
next
  case (Cons h hs)
  have "mono_option (\<lambda>g. case y of Inl e \<Rightarrow> Some (Inl e)
                                  | Inr acc1 \<Rightarrow> each_half (F g) hs acc1)" for y
    by (cases y) (simp_all add: option.const_mono Cons)
  then show ?case
    unfolding each_half.simps by (intro bind_mono assms)
qed

text \<open>
  \<^verbatim>\<open>createAlleys\<close> recurses for as long as a half is not below the size threshold, so it
  is defined as a partial function: \<open>None\<close> is a recursion that never ends. A result
  \<open>Inl\<close> is the \<^verbatim>\<open>TypeError\<close> the source raises on a polygon without vertices, where
  \<^verbatim>\<open>bisect\<close> dereferences \<^verbatim>\<open>undefined\<close>. In \<^verbatim>\<open>minSq / (rng.float() * rng.float())\<close> a zero
  divisor gives an infinity in JavaScript; the comparison is written out for that case.
\<close>

partial_function (option) createAlleys ::
  "Polygon \<Rightarrow> SeededRandom \<Rightarrow> real \<Rightarrow> real \<Rightarrow> real \<Rightarrow> real \<Rightarrow> bool
     \<Rightarrow> (error + Polygon list \<times> SeededRandom) option" where
  "createAlleys p r minSq gridChaos sizeChaos emptyProb split =
     (case longest_edge p of
        None \<Rightarrow> Some (Inl (Error ''TypeError''))
      | Some v \<Rightarrow>
          (let spread = 0.8 * gridChaos;
               (f1, r1) = rng_float r;
               ratio = (1 - spread) / 2 + f1 * spread;
               angleSpread = (pi / 6) * gridChaos * (if square p < minSq * 4 then 0 else 1);
               (f2, r2) = rng_float r1;
               b = (f2 - 0.5) * angleSpread;
               halves = bisect p v ratio b (if split then ALLEY else 0)
           in each_half
                (\<lambda>half (buildings, ra).
                   (let (f3, rb) = rng_float ra in
                    if square half < minSq * 2 powr (4 * sizeChaos * (f3 - 0.5)) then
                      (if length half \<ge> 4 then
                         (let (e, rc) = rng_bool rb emptyProb
                          in Some (Inr (if \<not> e then buildings @ [half] else buildings, rc)))
                       else Some (Inr (buildings, rb)))
                    else
                      (let (f4, rc) = rng_float rb;
                           (f5, rd) = rng_float rc;
                           sub_split = (if f4 * f5 = 0 then minSq < 0
                                        else square half > minSq / (f4 * f5))
                       in Option.bind
                            (createAlleys half rd minSq gridChaos sizeChaos emptyProb sub_split)
                            (\<lambda>res. case res of
                               Inl e \<Rightarrow> Some (Inl e)
                             | Inr (bs, re) \<Rightarrow> Some (Inr (buildings @ bs, re))))))
                halves ([], r2)))"

text \<open>An isosceles triangle whose longest edge is bisected by a line through the apex.\<close>

definition flat_triangle :: Polygon where
  "flat_triangle = [Point 0 0, Point 4 0, Point 2 1]"

text \<open>
  A block in the shape of a C: two long bars joined at their left ends. Its longest
  edge is the bottom one, and a line across the bars meets four edges.
\<close>

definition c_block :: Polygon where
  "c_block = [Point 0 0, Point 20 0, Point 20 2, Point 2 2,
              Point 2 4, Point 19 4, Point 19 6, Point 0 6]"


section \<open>Graph and path search (geom/graph.ts)\<close>

text \<open>
  A \<^verbatim>\<open>Node\<close> is an object compared by identity, so it is modelled by its address. Its
  \<^verbatim>\<open>links\<close> field is a JavaScript \<^verbatim>\<open>Map\<close>, which iterates in insertion order: an association
  list. The store lists the node objects with their links; a node that is not listed has
  no links.
\<close>

type_synonym Node = nat

type_synonym node_store = "(Node \<times> (Node \<times> real) list) list"

text \<open>\<^verbatim>\<open>Map.set\<close>: an existing key keeps its position, a new key goes to the end.\<close>

fun map_set :: "('k \<times> 'v) list \<Rightarrow> 'k \<Rightarrow> 'v \<Rightarrow> ('k \<times> 'v) list" where
  "map_set [] k v = [(k, v)]"
| "map_set ((k1, v1) # m) k v = (if k1 = k then (k, v) # m else (k1, v1) # map_set m k v)"

definition map_delete :: "('k \<times> 'v) list \<Rightarrow> 'k \<Rightarrow> ('k \<times> 'v) list" where
  "map_delete m k = filter (\<lambda>(k1, v1). k1 \<noteq> k) m"

definition links_of :: "node_store \<Rightarrow> Node \<Rightarrow> (Node \<times> real) list" where
  "links_of g n = (case map_of g n of None \<Rightarrow> [] | Some l \<Rightarrow> l)"

definition link :: "node_store \<Rightarrow> Node \<Rightarrow> Node \<Rightarrow> real \<Rightarrow> bool \<Rightarrow> node_store" where
  "link g a node price symmetrical =
     (let g1 = map_set g a (map_set (links_of g a) node price)
      in if symmetrical then map_set g1 node (map_set (links_of g1 node) a price) else g1)"

definition unlink :: "node_store \<Rightarrow> Node \<Rightarrow> Node \<Rightarrow> bool \<Rightarrow> node_store" where
  "unlink g a node symmetrical =
     (let g1 = map_set g a (map_delete (links_of g a) node)
      in if symmetrical then map_set g1 node (map_delete (links_of g1 node) a) else g1)"

text \<open>\<^verbatim>\<open>Graph.add()\<close> without an argument: a new node object with no links.\<close>

record Graph =
  nodes :: "Node list"

definition fresh_node :: "node_store \<Rightarrow> Node" where
  "fresh_node g = (if g = [] then 0 else Suc (Max (set (map fst g))))"

definition graph_add :: "node_store \<Rightarrow> Graph \<Rightarrow> Node \<times> node_store \<times> Graph" where
  "graph_add g gr =
     (let n = fresh_node g in (n, g @ [(n, [])], gr\<lparr>nodes := nodes gr @ [n]\<rparr>))"

datatype path_result = Null | Path "Node list"

text \<open>
  \<^verbatim>\<open>buildPath\<close> follows \<^verbatim>\<open>cameFrom\<close> for as long as the current node has an entry; on an
  arbitrary map that loop need not end, so it is a partial function.
\<close>

partial_function (option) buildPath_loop ::
  "(Node \<rightharpoonup> Node) \<Rightarrow> Node \<Rightarrow> Node list \<Rightarrow> Node list option" where
  "buildPath_loop cameFrom current path =
     (case cameFrom current of
        None \<Rightarrow> Some path
      | Some c \<Rightarrow> buildPath_loop cameFrom c (path @ [c]))"

definition buildPath :: "(Node \<rightharpoonup> Node) \<Rightarrow> Node \<Rightarrow> Node list option" where
  "buildPath cameFrom current = buildPath_loop cameFrom current [current]"

text \<open>
  The scores. \<^verbatim>\<open>gScore\<close> maps a node to a number; \<open>None\<close> stands both for a missing entry,
  which the source reads as \<^verbatim>\<open>Infinity\<close> in the comparison and as \<^verbatim>\<open>undefined\<close> (hence
  \<^verbatim>\<open>NaN\<close> after the addition) for the current node, and for a stored \<^verbatim>\<open>NaN\<close>. In all three
  cases \<^verbatim>\<open>score >= ...\<close> is false, which is all the source asks of them.
\<close>

definition score_ge :: "real option \<Rightarrow> real option \<Rightarrow> bool" where
  "score_ge score old = (case (score, old) of (Some s, Some g) \<Rightarrow> s \<ge> g | _ \<Rightarrow> False)"

text \<open>The body of the loop over \<^verbatim>\<open>current.links\<close>.\<close>

definition relax ::
  "Node list \<Rightarrow> Node \<Rightarrow> real option
     \<Rightarrow> Node list \<times> (Node \<rightharpoonup> Node) \<times> (Node \<rightharpoonup> real)
     \<Rightarrow> Node \<times> real
     \<Rightarrow> Node list \<times> (Node \<rightharpoonup> Node) \<times> (Node \<rightharpoonup> real)" where
  "relax closedSet current curScore st nc =
     (case (st, nc) of ((openSet, cameFrom, gScore), (neighbour, cost)) \<Rightarrow>
        if neighbour \<in> set closedSet then (openSet, cameFrom, gScore)
        else
          (let score = map_option (\<lambda>s. s + cost) curScore in
           if neighbour \<notin> set openSet then
             (openSet @ [neighbour], cameFrom(neighbour \<mapsto> current), gScore(neighbour := score))
           else if score_ge score (gScore neighbour) then (openSet, cameFrom, gScore)
           else (openSet, cameFrom(neighbour \<mapsto> current), gScore(neighbour := score))))"

definition expand ::
  "node_store \<Rightarrow> Node list \<Rightarrow> Node
     \<Rightarrow> Node list \<times> (Node \<rightharpoonup> Node) \<times> (Node \<rightharpoonup> real)
     \<Rightarrow> Node list \<times> (Node \<rightharpoonup> Node) \<times> (Node \<rightharpoonup> real)" where
  "expand g closedSet current st =
     foldl (relax closedSet current (snd (snd st) current)) st (links_of g current)"

text \<open>Every node the store mentions, as an owner of links or as a neighbour.\<close>

definition all_nodes :: "node_store \<Rightarrow> Node set" where
  "all_nodes g = set (map fst g) \<union> (\<Union>(n, l) \<in> set g. set (map fst l))"

lemma finite_all_nodes: "finite (all_nodes g)"
  by (auto simp: all_nodes_def)

lemma links_in_all_nodes: "(n, c) \<in> set (links_of g a) \<Longrightarrow> n \<in> all_nodes g"
proof -
  assume a: "(n, c) \<in> set (links_of g a)"
  then obtain l where l: "map_of g a = Some l" "(n, c) \<in> set l"
    by (cases "map_of g a") (auto simp: links_of_def)
  then have "(a, l) \<in> set g" by (auto dest: map_of_SomeD)
  with l(2) show ?thesis unfolding all_nodes_def by force
qed

text \<open>
  The quantity that decreases with every node taken from the open set: the length of the
  open set plus the number of nodes that are neither open nor closed.
\<close>

definition search_size :: "node_store \<Rightarrow> Node list \<Rightarrow> Node list \<Rightarrow> nat" where
  "search_size g closedSet openSet =
     length openSet + card (all_nodes g - set closedSet - set openSet)"

lemma relax_size:
  assumes "fst nc \<in> all_nodes g"
  shows "search_size g closedSet (fst (relax closedSet current cs st nc))
       = search_size g closedSet (fst st)"
proof -
  obtain openSet cameFrom gScore where st: "st = (openSet, cameFrom, gScore)"
    by (cases st)
  obtain n c where nc: "nc = (n, c)" by (cases nc)
  show ?thesis
  proof (cases "n \<in> set closedSet \<or> n \<in> set openSet")
    case True
    then show ?thesis by (auto simp: relax_def st nc Let_def)
  next
    case False
    then have mem: "n \<in> all_nodes g - set closedSet - set openSet"
      using assms nc by simp
    have "all_nodes g - set closedSet - set (openSet @ [n])
        = (all_nodes g - set closedSet - set openSet) - {n}"
      by auto
    then have "card (all_nodes g - set closedSet - set (openSet @ [n]))
        = card (all_nodes g - set closedSet - set openSet) - 1"
      using mem by (simp add: finite_all_nodes)
    moreover have "card (all_nodes g - set closedSet - set openSet) > 0"
      using mem finite_all_nodes [of g] by (metis card_gt_0_iff empty_iff finite_Diff)
    ultimately show ?thesis using False
      by (simp add: relax_def st nc Let_def search_size_def)
  qed
qed

lemma foldl_relax_size:
  assumes "fst ` set ls \<subseteq> all_nodes g"
  shows "search_size g closedSet (fst (foldl (relax closedSet current cs) st ls))
       = search_size g closedSet (fst st)"
  using assms
proof (induction ls arbitrary: st)
  case Nil
  then show ?case by simp
next
  case (Cons nc ls)
  then show ?case by (simp add: relax_size)
qed

lemma expand_size:
  "search_size g closedSet (fst (expand g closedSet current st)) = search_size g closedSet (fst st)"
  unfolding expand_def
  by (rule foldl_relax_size) (auto dest: links_in_all_nodes)

text \<open>
  The main loop, from the state it keeps: the closed set, the open set (a queue: the
  first node is taken, new nodes go to the end), \<^verbatim>\<open>cameFrom\<close> and \<^verbatim>\<open>gScore\<close>. The result is
  \<open>None\<close> only if \<^verbatim>\<open>buildPath\<close> does not return.
\<close>

function aStar_loop ::
  "node_store \<Rightarrow> Node \<Rightarrow> Node list \<Rightarrow> Node list \<Rightarrow> (Node \<rightharpoonup> Node) \<Rightarrow> (Node \<rightharpoonup> real)
     \<Rightarrow> path_result option" where
  "aStar_loop g goal closedSet [] cameFrom gScore = Some Null"
| "aStar_loop g goal closedSet (current # openSet) cameFrom gScore =
     (if current = goal then map_option Path (buildPath cameFrom current)
      else
        (let closedSet1 = closedSet @ [current];
             st = expand g closedSet1 current (openSet, cameFrom, gScore)
         in aStar_loop g goal closedSet1 (fst st) (fst (snd st)) (snd (snd st))))"
  by pat_completeness auto
termination
proof (relation "measure (\<lambda>(g, goal, closedSet, openSet, cameFrom, gScore).
    search_size g closedSet openSet)", goal_cases)
  case 1
  show ?case by simp
next
  case (2 g goal closedSet current openSet cameFrom gScore closedSet1 st)
  have "search_size g closedSet1 (fst st) = search_size g closedSet1 openSet"
    unfolding 2(3) using expand_size [of g closedSet1 current "(openSet, cameFrom, gScore)"]
    by simp
  also have "all_nodes g - set closedSet1 - set openSet
      = all_nodes g - set closedSet - set (current # openSet)"
    unfolding 2(2) by auto
  then have "search_size g closedSet1 openSet < search_size g closedSet (current # openSet)"
    by (simp add: search_size_def)
  finally show ?case by (cases st) simp
qed

declare aStar_loop.simps [simp del]

definition aStar :: "node_store \<Rightarrow> Node \<Rightarrow> Node \<Rightarrow> Node list option \<Rightarrow> path_result option" where
  "aStar g start goal exclude =
     aStar_loop g goal (case exclude of Some ex \<Rightarrow> ex | None \<Rightarrow> []) [start]
       Map.empty [start \<mapsto> 0]"


subsection \<open>Notions used to state the properties of the search\<close>

definition nbrs :: "node_store \<Rightarrow> Node \<Rightarrow> Node set" where
  "nbrs g a = fst ` set (links_of g a)"

text \<open>
  A route is a non-empty node list in which every node after the first is linked from
  its predecessor and is not excluded. The first node may be excluded: the search takes
  the start node from the open set without looking at the closed set.
\<close>

fun is_route :: "node_store \<Rightarrow> Node list \<Rightarrow> Node list \<Rightarrow> bool" where
  "is_route g ex [] = False"
| "is_route g ex [a] = True"
| "is_route g ex (a # b # ns) = (b \<in> nbrs g a \<and> b \<notin> set ex \<and> is_route g ex (b # ns))"

definition path_exists :: "node_store \<Rightarrow> Node list \<Rightarrow> Node \<Rightarrow> Node \<Rightarrow> bool" where
  "path_exists g ex start goal = (\<exists>ns. is_route g ex ns \<and> hd ns = start \<and> last ns = goal)"

definition step_rel :: "node_store \<Rightarrow> Node set \<Rightarrow> (Node \<times> Node) set" where
  "step_rel g X = {(a, b). b \<in> nbrs g a \<and> b \<notin> X}"

text \<open>The position of the first occurrence of a node in the closed set.\<close>

definition pos :: "'a list \<Rightarrow> 'a \<Rightarrow> nat" where
  "pos xs a = length (takeWhile (\<lambda>x. x \<noteq> a) xs)"

text \<open>
  Every \<^verbatim>\<open>cameFrom\<close> entry points to a closed node, and to one that was closed earlier
  when the entry's node is closed itself.
\<close>

definition came_from_ok :: "Node list \<Rightarrow> (Node \<rightharpoonup> Node) \<Rightarrow> bool" where
  "came_from_ok closedSet cameFrom =
     (\<forall>n m. cameFrom n = Some m \<longrightarrow>
        m \<in> set closedSet \<and> (n \<in> set closedSet \<longrightarrow> pos closedSet m < pos closedSet n))"

text \<open>The graph of the test suite: four nodes, linked symmetrically.\<close>

definition four_nodes :: "node_store \<times> Graph" where
  "four_nodes =
     (let (a, g1, gr1) = graph_add [] \<lparr>nodes = []\<rparr>;
          (b, g2, gr2) = graph_add g1 gr1;
          (c, g3, gr3) = graph_add g2 gr2;
          (d, g4, gr4) = graph_add g3 gr3
      in (g4, gr4))"

definition diamond :: node_store where
  "diamond =
     (let g = fst four_nodes;
          g = link g 0 1 1 True;
          g = link g 0 2 10 True;
          g = link g 1 3 1 True;
          g = link g 2 3 1 True
      in g)"

text \<open>Three nodes in a row, as in the test of the exclusion list.\<close>

definition chain3 :: node_store where
  "chain3 = link (link [(0, []), (1, []), (2, [])] 0 1 1 True) 1 2 1 True"


section \<open>Gate selection of the curtain wall (generator/curtain-wall.ts)\<close>

text \<open>
  Wall vertices are point objects compared by identity; they are modelled by a type
  \<open>'p\<close> of handles. A patch is given by the vertex handles of its shape. The entrance
  candidates are computed as in the source, from the wall shape, the enclosed patches
  (\<^verbatim>\<open>this.patches\<close>) and the reserved vertices.
\<close>

definition entrances_of :: "'p list list \<Rightarrow> 'p list \<Rightarrow> 'p list \<Rightarrow> 'p list" where
  "entrances_of enclosed wshape reserved =
     (if length enclosed > 1 then
        filter (\<lambda>v. v \<notin> set reserved \<and> length (filter (\<lambda>p. v \<in> set p) enclosed) > 1) wshape
      else filter (\<lambda>v. v \<notin> set reserved) wshape)"

text \<open>
  The end of \<^verbatim>\<open>selectGate\<close>: the chosen entrance and its neighbours leave the candidate
  list (\<^verbatim>\<open>splice\<close>, \<^verbatim>\<open>pop\<close> and \<^verbatim>\<open>shift\<close> do nothing where the array has run out).
\<close>

definition remove_neighbours :: "'p list \<Rightarrow> nat \<Rightarrow> 'p list" where
  "remove_neighbours entrances index =
     (if index = 0 then butlast (drop 2 entrances)
      else if index = length entrances - 1 then
        tl (take (index - 1) entrances @ drop (index + 1) entrances)
      else take (index - 1) entrances @ drop (index + 2) entrances)"

text \<open>
  \<^verbatim>\<open>selectGate\<close> on the pair of the gates chosen so far and the remaining candidates. For
  a real wall the source also splits the outer patch opposite the gate; that changes
  \<^verbatim>\<open>model.patches\<close> only, which gate selection never reads, and it is left out here.
\<close>

definition selectGate :: "'p list \<times> 'p list \<Rightarrow> 'p \<Rightarrow> nat \<Rightarrow> 'p list \<times> 'p list" where
  "selectGate st gate index =
     (case st of (chosen, entrances) \<Rightarrow> (chosen @ [gate], remove_neighbours entrances index))"




lemma rng_int_index:
  assumes "0 < n"
  shows "0 \<le> fst (rng_int r 0 (real n))" and "fst (rng_int r 0 (real n)) < int n"
proof -
  let ?s = "(seed r * SeededRandom_G) mod SeededRandom_N"
  have lt: "?s < SeededRandom_N" by (simp add: SeededRandom_N_def)
  have v: "fst (rng_int r 0 (real n)) = \<lfloor>real ?s / real SeededRandom_N * real n\<rfloor>"
    by (simp add: rng_int_def rng_next_def Let_def)
  have "0 \<le> real ?s / real SeededRandom_N * real n" by simp
  then show "0 \<le> fst (rng_int r 0 (real n))" unfolding v by simp
  have "real ?s / real SeededRandom_N < 1" using lt by (simp add: SeededRandom_N_def)
  then have "real ?s / real SeededRandom_N * real n < 1 * real n"
    using assms by (intro mult_strict_right_mono) simp_all
  then show "fst (rng_int r 0 (real n)) < int n" unfolding v by (simp add: floor_less_iff)
qed

lemma remove_neighbours_shorter:
  assumes "index < length entrances"
  shows "length (remove_neighbours entrances index) < length entrances"
  using assms by (auto simp: remove_neighbours_def)




text \<open>
  The other version of the file in the repository has no \<^verbatim>\<open>roadEntryPoints\<close> and selects
  gates in a \<^verbatim>\<open>do ... while (entrances.length >= 3)\<close> loop, whose body runs at least once.
\<close>

function select_while ::
  "'p list \<times> 'p list \<Rightarrow> SeededRandom \<Rightarrow> ('p list \<times> 'p list) \<times> SeededRandom" where
  "select_while st r =
     (let (i, r1) = rng_int r 0 (real (length (snd st)));
          index = nat i;
          st1 = selectGate st (snd st ! index) index
      in if length (snd st1) \<ge> 3 then select_while st1 r1 else (st1, r1))"
  by pat_completeness auto
termination
proof (relation "measure (\<lambda>(st, r). length (snd st))", goal_cases)
  case 1
  show ?case by simp
next
  case (2 st r x i r1 index st1)
  have n: "0 < length (snd st)"
  proof (rule ccontr)
    assume "\<not> 0 < length (snd st)"
    then have "snd st = []" by simp
    then have "snd st1 = []"
      unfolding 2(4) by (cases st) (simp add: selectGate_def remove_neighbours_def)
    with 2(5) show False by simp
  qed
  have "i = fst (rng_int r 0 (real (length (snd st))))" using 2(1,2) by (metis fst_conv)
  with rng_int_index [OF n, of r] 2(3) have "index < length (snd st)" by simp
  then have "length (remove_neighbours (snd st) index) < length (snd st)"
    by (rule remove_neighbours_shorter)
  then show ?case unfolding 2(4) by (cases st) (simp add: selectGate_def)
qed

declare select_while.simps [simp del]

definition buildGates_do_while ::
  "'p list list \<Rightarrow> 'p list \<Rightarrow> 'p list \<Rightarrow> SeededRandom \<Rightarrow> error + 'p list \<times> SeededRandom" where
  "buildGates_do_while enclosed wshape reserved r =
     (let entrances = entrances_of enclosed wshape reserved in
      if length entrances = 0 then Inl (Error ''Bad walled area shape!'')
      else
        (let (st2, r2) = select_while ([], entrances) r
         in if length (fst st2) = 0 then Inl (Error ''Bad walled area shape!'')
            else Inr (fst st2, r2)))"


subsection \<open>Notions used to state the properties of gate selection\<close>







section \<open>\<^verbatim>\<open>Polygon.cut\<close> on a store of mutable objects\<close>

text \<open>
  Points are mutable objects shared between polygons, and a polygon owns a mutable
  vertex array. To state what \<^verbatim>\<open>cut\<close> leaves untouched, the objects live in a store:
  point objects and polygon objects are addresses, \<open>points\<close> gives the coordinates of a
  point object, \<open>arrays\<close> the vertex array of a polygon object (a list of point
  addresses), and the two limits are the next free addresses: an object exists when its
  address is below the limit.
\<close>

record store =
  points :: "nat \<Rightarrow> Point"
  arrays :: "nat \<Rightarrow> nat list"
  plim :: nat
  alim :: nat

text \<open>\<^verbatim>\<open>new Point(x, y)\<close> and \<^verbatim>\<open>new Polygon(vertices)\<close>, which copies the array it is given.\<close>

definition new_point :: "Point \<Rightarrow> store \<Rightarrow> nat \<times> store" where
  "new_point v s = (plim s, s\<lparr>points := (points s)(plim s := v), plim := Suc (plim s)\<rparr>)"

definition new_polygon :: "nat list \<Rightarrow> store \<Rightarrow> nat \<times> store" where
  "new_polygon vs s = (alim s, s\<lparr>arrays := (arrays s)(alim s := vs), alim := Suc (alim s)\<rparr>)"

text \<open>The methods of \<^verbatim>\<open>Point\<close> that return a new object.\<close>

definition h_add :: "nat \<Rightarrow> nat \<Rightarrow> store \<Rightarrow> nat \<times> store" where
  "h_add a p s = new_point (add (points s a) (points s p)) s"

definition h_subtract :: "nat \<Rightarrow> nat \<Rightarrow> store \<Rightarrow> nat \<times> store" where
  "h_subtract a p s = new_point (subtract (points s a) (points s p)) s"

definition h_scale :: "nat \<Rightarrow> real \<Rightarrow> store \<Rightarrow> nat \<times> store" where
  "h_scale a f s = new_point (scale (points s a) f) s"

definition h_rotate90 :: "nat \<Rightarrow> store \<Rightarrow> nat \<times> store" where
  "h_rotate90 a s = new_point (rotate90 (points s a)) s"

definition h_clone :: "nat \<Rightarrow> store \<Rightarrow> nat \<times> store" where
  "h_clone a s = new_point (points s a) s"

text \<open>\<^verbatim>\<open>normalize\<close> writes to the point it is called on; \<^verbatim>\<open>norm\<close> calls it on a clone.\<close>

definition h_normalize :: "nat \<Rightarrow> real \<Rightarrow> store \<Rightarrow> store" where
  "h_normalize a len s = s\<lparr>points := (points s)(a := normalize (points s a) len)\<rparr>"

definition h_norm :: "nat \<Rightarrow> real \<Rightarrow> store \<Rightarrow> nat \<times> store" where
  "h_norm a len s = (let (p, s1) = h_clone a s in (p, h_normalize p len s1))"

text \<open>\<^verbatim>\<open>vertices.unshift(v)\<close> and \<^verbatim>\<open>vertices.push(v)\<close> change the array of a polygon in place.\<close>

definition h_unshift :: "nat \<Rightarrow> nat \<Rightarrow> store \<Rightarrow> store" where
  "h_unshift poly v s = s\<lparr>arrays := (arrays s)(poly := v # arrays s poly)\<rparr>"

definition h_push :: "nat \<Rightarrow> nat \<Rightarrow> store \<Rightarrow> store" where
  "h_push poly v s = s\<lparr>arrays := (arrays s)(poly := arrays s poly @ [v])\<rparr>"

definition h_vectori :: "nat \<Rightarrow> nat \<Rightarrow> store \<Rightarrow> nat \<times> store" where
  "h_vectori poly i s =
     (let vs = arrays s poly
      in h_subtract (vs ! (if i = length vs - 1 then 0 else i + 1)) (vs ! i) s)"

text \<open>The polygon value held by a vertex array, and \<^verbatim>\<open>indexOf\<close> by identity.\<close>

definition value_of :: "store \<Rightarrow> nat list \<Rightarrow> Polygon" where
  "value_of s vs = map (points s) vs"

fun index_of :: "'a list \<Rightarrow> 'a \<Rightarrow> nat option" where
  "index_of [] a = None"
| "index_of (x # xs) a = (if x = a then Some 0 else map_option Suc (index_of xs a))"

text \<open>
  The scanning loop of \<^verbatim>\<open>cut\<close> in the store: the same scan as on values, and one new
  point object for every parameter pair that \<^verbatim>\<open>intersectLines\<close> returns.
\<close>

definition scan_step_h ::
  "nat list \<Rightarrow> nat \<Rightarrow> nat \<Rightarrow> cut_scan \<times> store \<Rightarrow> nat \<Rightarrow> cut_scan \<times> store" where
  "scan_step_h vs p1 p2 acc i =
     (case acc of (st, s) \<Rightarrow>
        (cut_step (points s p1) (points s p2) (value_of s vs) st i,
         (case edge_hit (points s p1) (points s p2) (value_of s vs) i of
            None \<Rightarrow> s
          | Some t \<Rightarrow> snd (new_point t s))))"

definition scan_h :: "nat list \<Rightarrow> nat \<Rightarrow> nat \<Rightarrow> store \<Rightarrow> cut_scan \<times> store" where
  "scan_h vs p1 p2 s =
     foldl (scan_step_h vs p1 p2)
       (\<lparr>edge1 = 0, ratio1 = 0, edge2 = 0, ratio2 = 0, cnt = 0\<rparr>, s) [0..<length vs]"

text \<open>
  The construction of the two halves when the count is two: the two intersection points
  are new objects, each half is a new polygon made from a slice of the receiver's array,
  and the intersection points are added to the arrays of the halves.
\<close>

definition make_halves ::
  "nat list \<Rightarrow> nat \<Rightarrow> nat \<Rightarrow> cut_scan \<Rightarrow> store \<Rightarrow> (nat \<times> nat \<times> nat \<times> nat) \<times> store" where
  "make_halves vs p1 p2 sc s =
     (let (dir, s) = h_subtract p2 p1 s;
          (d1, s) = h_scale dir (ratio1 sc) s;
          (point1, s) = h_add p1 d1 s;
          (d2, s) = h_scale dir (ratio2 sc) s;
          (point2, s) = h_add p1 d2 s;
          (half1, s) = new_polygon (slice vs (edge1 sc + 1) (edge2 sc + 1)) s;
          s = h_unshift half1 point1 s;
          s = h_push half1 point2 s;
          (half2, s) = new_polygon (slice_from vs (edge2 sc + 1) @ slice vs 0 (edge1 sc + 1)) s;
          s = h_unshift half2 point2 s;
          s = h_push half2 point1 s
      in ((half1, half2, point1, point2), s))"

text \<open>The line along which \<^verbatim>\<open>peel\<close> cuts: the edge after \<open>v1\<close>, moved by \<open>d\<close> along its normal.\<close>

definition peel_line :: "nat \<Rightarrow> nat \<Rightarrow> real \<Rightarrow> store \<Rightarrow> (nat \<times> nat) \<times> store" where
  "peel_line v1 v2 d s =
     (let (v, s) = h_subtract v2 v1 s;
          (rt, s) = h_rotate90 v s;
          (n, s) = h_norm rt d s;
          (a1, s) = h_add v1 n s;
          (a2, s) = h_add v2 n s
      in ((a1, a2), s))"

text \<open>The order of the two results, decided by the direction of the first edge that was met.\<close>

definition order_halves ::
  "nat \<Rightarrow> real \<Rightarrow> real \<Rightarrow> cut_scan \<Rightarrow> nat \<Rightarrow> nat \<Rightarrow> store \<Rightarrow> nat list \<times> store" where
  "order_halves this dx1 dy1 sc h1 h2 s =
     (let (v, s) = h_vectori this (edge1 sc) s
      in (if cross dx1 dy1 (px (points s v)) (py (points s v)) > 0 then [h1, h2] else [h2, h1], s))"

text \<open>
  \<^verbatim>\<open>cut\<close> and \<^verbatim>\<open>peel\<close> on the store. The result \<open>None\<close> is the \<^verbatim>\<open>TypeError\<close> that \<^verbatim>\<open>peel\<close>
  raises on a polygon without vertices, where \<^verbatim>\<open>vertices[i2]\<close> is \<^verbatim>\<open>undefined\<close>. A vertex
  that \<^verbatim>\<open>indexOf\<close> does not find gives index -1, hence \<open>i2 = 0\<close>.
\<close>

function cut_h :: "nat \<Rightarrow> nat \<Rightarrow> nat \<Rightarrow> real \<Rightarrow> store \<Rightarrow> (nat list \<times> store) option"
  and peel_h :: "nat \<Rightarrow> nat \<Rightarrow> real \<Rightarrow> store \<Rightarrow> (nat \<times> store) option" where
  "cut_h this p1 p2 gap s =
     (let dx1 = px (points s p2) - px (points s p1);
          dy1 = py (points s p2) - py (points s p1);
          vs = arrays s this;
          (sc, s1) = scan_h vs p1 p2 s
      in if cnt sc = 2 then
           (let ((half1, half2, point1, point2), s2) = make_halves vs p1 p2 sc s1
            in if gap > 0 then
                 Option.bind (peel_h half1 point2 (gap / 2) s2) (\<lambda>(h1, s3).
                 Option.bind (peel_h half2 point1 (gap / 2) s3) (\<lambda>(h2, s4).
                   Some (order_halves this dx1 dy1 sc h1 h2 s4)))
               else Some (order_halves this dx1 dy1 sc half1 half2 s2))
         else (let (q, s2) = new_polygon vs s1 in Some ([q], s2)))"
| "peel_h this v1 d s =
     (let vs = arrays s this;
          i2 = (case index_of vs v1 of
                  None \<Rightarrow> 0
                | Some i1 \<Rightarrow> if i1 = length vs - 1 then 0 else i1 + 1)
      in if vs = [] then None
         else
           (let v2 = vs ! i2;
                ((a1, a2), s1) = peel_line v1 v2 d s
            in Option.bind (cut_h this a1 a2 0 s1) (\<lambda>(res, s2). Some (hd res, s2))))"
  by pat_completeness auto
termination
  by (relation "measure (\<lambda>a. case a of
        Inl (this, p1, p2, gap, s) \<Rightarrow> if gap > 0 then 2 else 0
      | Inr (this, v1, d, s) \<Rightarrow> 1)") auto

declare cut_h.simps [simp del] peel_h.simps [simp del]

text \<open>
  The store \<open>s1\<close> keeps every object of the store \<open>s\<close> as it is: no existing point has
  moved and no existing vertex array has changed.
\<close>

definition frame :: "store \<Rightarrow> store \<Rightarrow> bool" where
  "frame s s1 =
     (plim s \<le> plim s1 \<and> alim s \<le> alim s1
      \<and> (\<forall>a. a < plim s \<longrightarrow> points s1 a = points s a)
      \<and> (\<forall>p. p < alim s \<longrightarrow> arrays s1 p = arrays s p))"

text \<open>
  The polygon object \<open>r\<close> did not exist in the store \<open>s\<close>, exists in \<open>s1\<close>, and each
  of its vertices is a vertex from the list \<open>vs\<close> or a point object that did not exist in
  \<open>s\<close>.
\<close>

definition made_from :: "store \<Rightarrow> nat list \<Rightarrow> store \<Rightarrow> nat \<Rightarrow> bool" where
  "made_from s vs s1 r =
     (alim s \<le> r \<and> r < alim s1 \<and> set (arrays s1 r) \<subseteq> set vs \<union> {v. plim s \<le> v})"

text \<open>A store with the rectangle of the test suite and the two points of its cutting line.\<close>

definition rect_store :: store where
  "rect_store =
     \<lparr>points = (\<lambda>a. [Point (- 2) (- 2), Point 2 (- 2), Point 2 2, Point (- 2) 2,
                       Point (- 5) 0, Point 5 0, Point 0 0] ! (min a 6)),
      arrays = (\<lambda>p. if p = 0 then [0, 1, 2, 3] else []),
      plim = 6, alim = 1\<rparr>"


section \<open>Properties of the generator and of the retry loop\<close>

lemma generate_from_skip:
  "\<forall>k<n. attempt_fails build m k \<Longrightarrow> a + n \<le> MAX_ATTEMPTS \<Longrightarrow>
   generate_from build a m = generate_from build (a + n) (attempt_start build m n)"
proof (induction n)
  case 0
  then show ?case by simp
next
  case (Suc n)
  have f: "attempt_fails build m n" using Suc.prems by simp
  then obtain e m1 where b: "build (attempt_start build m n) = (Some e, m1)"
    by (cases "build (attempt_start build m n)") (auto simp: attempt_fails_def)
  have "generate_from build a m = generate_from build (a + n) (attempt_start build m n)"
    using Suc by simp
  also have "\<dots> = generate_from build (a + n + 1) (reset_state m1)"
    using Suc.prems(2) b by (subst generate_from.simps) simp
  finally show ?case using b by simp
qed

lemma generate_all_fail:
  assumes "\<forall>k<MAX_ATTEMPTS. attempt_fails build m k"
  shows "generate build m = Inl (Error ''Failed to generate after 20 attempts'')"
proof -
  have "generate build m = generate_from build (0 + MAX_ATTEMPTS) (attempt_start build m MAX_ATTEMPTS)"
    unfolding generate_def using assms by (intro generate_from_skip) auto
  then show ?thesis by (subst (asm) generate_from.simps) simp
qed

lemma generate_first_success:
  assumes "k < MAX_ATTEMPTS" "\<forall>j<k. attempt_fails build m j" "\<not> attempt_fails build m k"
  shows "generate build m = Inr (snd (build (attempt_start build m k)))"
proof -
  have "generate build m = generate_from build (0 + k) (attempt_start build m k)"
    unfolding generate_def using assms by (intro generate_from_skip) auto
  moreover obtain m1 where "build (attempt_start build m k) = (None, m1)"
    using assms(3) by (cases "build (attempt_start build m k)") (auto simp: attempt_fails_def)
  ultimately show ?thesis using assms(1) by (subst (asm) generate_from.simps) simp
qed

lemma generate_cases:
  "(\<forall>k<MAX_ATTEMPTS. attempt_fails build m k) \<or>
   (\<exists>k<MAX_ATTEMPTS. (\<forall>j<k. attempt_fails build m j) \<and> \<not> attempt_fails build m k)"
proof (cases "\<forall>k<MAX_ATTEMPTS. attempt_fails build m k")
  case True then show ?thesis by simp
next
  case False
  then have ex: "\<exists>k. k < MAX_ATTEMPTS \<and> \<not> attempt_fails build m k" by auto
  define k where "k = (LEAST k. k < MAX_ATTEMPTS \<and> \<not> attempt_fails build m k)"
  have 1: "k < MAX_ATTEMPTS \<and> \<not> attempt_fails build m k"
    unfolding k_def using ex by (rule LeastI_ex)
  have 2: "\<forall>j<k. attempt_fails build m j"
  proof (intro allI impI)
    fix j assume "j < k"
    then have "\<not> (j < MAX_ATTEMPTS \<and> \<not> attempt_fails build m j)"
      unfolding k_def by (rule not_less_Least)
    with \<open>j < k\<close> 1 show "attempt_fails build m j" by auto
  qed
  show ?thesis using 1 2 by blast
qed

lemma reset_fields:
  "rng (reset_state m) = rng m"
  "patches (reset_state m) = []" "inner (reset_state m) = []" "citadel (reset_state m) = None"
  "plaza (reset_state m) = None" "border (reset_state m) = None" "wall (reset_state m) = None"
  "gates (reset_state m) = []" "streets (reset_state m) = []" "roads (reset_state m) = []"
  "arteries (reset_state m) = []" "topology (reset_state m) = None"
  by (simp_all add: reset_state_def)

text \<open>
  Claim C8. \<^verbatim>\<open>Model.generate\<close> runs \<^verbatim>\<open>build\<close> up to 20 times. When every attempt throws,
  it raises the fatal error and returns no model; otherwise it returns the model exactly as
  the first successful \<^verbatim>\<open>build\<close> left it. It raises only when all 20 attempts have
  thrown, and a model it returns is always the result of a \<^verbatim>\<open>build\<close> that completed.
  Each retry starts with the patch, wall, gate, street, road, artery and topology fields
  emptied and with the generator in the state the failed attempt left it in: the
  generator is never reseeded.
\<close>

theorem generate_retries:
  "((\<forall>k<MAX_ATTEMPTS. attempt_fails build m k) \<longrightarrow>
      generate build m = Inl (Error ''Failed to generate after 20 attempts''))
   \<and> (\<forall>k<MAX_ATTEMPTS. (\<forall>j<k. attempt_fails build m j) \<and> \<not> attempt_fails build m k \<longrightarrow>
      generate build m = Inr (snd (build (attempt_start build m k))))
   \<and> (\<forall>e. generate build m = Inl e \<longrightarrow> (\<forall>k<MAX_ATTEMPTS. attempt_fails build m k))
   \<and> (\<forall>m1. generate build m = Inr m1 \<longrightarrow>
        (\<exists>k<MAX_ATTEMPTS. build (attempt_start build m k) = (None, m1)))
   \<and> (\<forall>k. rng (attempt_start build m (Suc k)) = rng (snd (build (attempt_start build m k)))
        \<and> patches (attempt_start build m (Suc k)) = []
        \<and> inner (attempt_start build m (Suc k)) = []
        \<and> citadel (attempt_start build m (Suc k)) = None
        \<and> plaza (attempt_start build m (Suc k)) = None
        \<and> border (attempt_start build m (Suc k)) = None
        \<and> wall (attempt_start build m (Suc k)) = None
        \<and> gates (attempt_start build m (Suc k)) = []
        \<and> streets (attempt_start build m (Suc k)) = []
        \<and> roads (attempt_start build m (Suc k)) = []
        \<and> arteries (attempt_start build m (Suc k)) = []
        \<and> topology (attempt_start build m (Suc k)) = None)"
proof (intro conjI allI impI)
  show "generate build m = Inl (Error ''Failed to generate after 20 attempts'')"
    if "\<forall>k<MAX_ATTEMPTS. attempt_fails build m k"
    using that by (rule generate_all_fail)
next
  fix k assume "k < MAX_ATTEMPTS" "(\<forall>j<k. attempt_fails build m j) \<and> \<not> attempt_fails build m k"
  then show "generate build m = Inr (snd (build (attempt_start build m k)))"
    by (intro generate_first_success) auto
next
  fix e k assume g: "generate build m = Inl e" and k: "k < MAX_ATTEMPTS"
  show "attempt_fails build m k"
  proof (rule ccontr)
    assume "\<not> attempt_fails build m k"
    with k have "\<not> (\<forall>k<MAX_ATTEMPTS. attempt_fails build m k)" by blast
    with generate_cases [of build m] obtain j where
      "j < MAX_ATTEMPTS" "\<forall>i<j. attempt_fails build m i" "\<not> attempt_fails build m j" by blast
    then have "generate build m = Inr (snd (build (attempt_start build m j)))"
      by (rule generate_first_success)
    with g show False by simp
  qed
next
  fix m1 assume g: "generate build m = Inr m1"
  from generate_cases [of build m] show "\<exists>k<MAX_ATTEMPTS. build (attempt_start build m k) = (None, m1)"
  proof
    assume "\<forall>k<MAX_ATTEMPTS. attempt_fails build m k"
    then have "generate build m = Inl (Error ''Failed to generate after 20 attempts'')"
      by (rule generate_all_fail)
    with g show ?thesis by simp
  next
    assume "\<exists>k<MAX_ATTEMPTS. (\<forall>j<k. attempt_fails build m j) \<and> \<not> attempt_fails build m k"
    then obtain k where k: "k < MAX_ATTEMPTS" "\<forall>j<k. attempt_fails build m j" "\<not> attempt_fails build m k"
      by blast
    then have "generate build m = Inr (snd (build (attempt_start build m k)))"
      by (rule generate_first_success)
    with g have "snd (build (attempt_start build m k)) = m1" by simp
    moreover have "fst (build (attempt_start build m k)) = None"
      using k(3) by (simp add: attempt_fails_def)
    ultimately have "build (attempt_start build m k) = (None, m1)"
      by (cases "build (attempt_start build m k)") simp
    with k(1) show ?thesis by blast
  qed
qed (simp_all add: reset_fields)

lemmas rng_eval = SeededRandom_new_def rng_float_def rng_next_def getSeed_def
  SeededRandom_G_def SeededRandom_N_def

theorem generate_retries_witness:
  "attempt_fails build_failing_at_one (Model_new sample_params 0) 0
   \<and> \<not> attempt_fails build_failing_at_one (Model_new sample_params 0) 1
   \<and> (1::nat) < MAX_ATTEMPTS
   \<and> rng (attempt_start build_failing_at_one (Model_new sample_params 0) 1) = \<lparr>seed = 48271\<rparr>
   \<and> gates (attempt_start build_failing_at_one (Model_new sample_params 0) 1) = []
   \<and> (\<exists>m1. generate build_failing_at_one (Model_new sample_params 0) = Inr m1
         \<and> rng m1 = \<lparr>seed = 182605794\<rparr> \<and> gates m1 = [Point 0 0])"
proof -
  let ?b = build_failing_at_one and ?m = "Model_new sample_params 0"
  have f0: "attempt_fails ?b ?m 0"
    by (simp add: attempt_fails_def build_failing_at_one_def Model_new_def sample_params_def rng_eval)
  have r1: "rng (attempt_start ?b ?m 1) = \<lparr>seed = 48271\<rparr>"
    by (simp add: build_failing_at_one_def Model_new_def sample_params_def rng_eval reset_state_def)
  have f1: "\<not> attempt_fails ?b ?m 1"
    using r1 by (simp add: attempt_fails_def build_failing_at_one_def getSeed_def)
  have lt: "(1::nat) < MAX_ATTEMPTS" by (simp add: MAX_ATTEMPTS_def)
  have pre: "(\<forall>j<1. attempt_fails ?b ?m j) \<and> \<not> attempt_fails ?b ?m 1"
    using f0 f1 by simp
  from generate_retries [of ?b ?m] lt pre
  have g: "generate ?b ?m = Inr (snd (?b (attempt_start ?b ?m 1)))" by blast
  have g1: "gates (attempt_start ?b ?m 1) = []"
    by (simp add: reset_state_def)
  have "rng (snd (?b (attempt_start ?b ?m 1))) = \<lparr>seed = 182605794\<rparr>"
    using r1 by (simp add: build_failing_at_one_def rng_next_def SeededRandom_G_def
        SeededRandom_N_def)
  moreover have "gates (snd (?b (attempt_start ?b ?m 1))) = [Point 0 0]"
    by (simp add: build_failing_at_one_def)
  ultimately show ?thesis using f0 f1 lt r1 g1 g by simp
qed

text \<open>
  With a seed in the parameters the clock is never consulted: the model object, and
  with it every run of \<^verbatim>\<open>generate\<close>, is the same whatever the time.
\<close>

lemma Model_new_ignores_clock:
  "Model_new p now = Model_new p now'"
  "generate build (Model_new p now) = generate build (Model_new p now')"
  by (simp_all add: Model_new_def SeededRandom_new_def)



section \<open>Properties of \<^verbatim>\<open>Polygon.cut\<close>\<close>














lemma cnt_foldl:
  "cnt (foldl (cut_step p1 p2 vs) st is) = cnt st + length (filter (is_hit p1 p2 vs) is)"
proof (induction "is" arbitrary: st)
  case Nil
  then show ?case by simp
next
  case (Cons i "is")
  have "cnt (cut_step p1 p2 vs st i) = cnt st + (if is_hit p1 p2 vs i then 1 else 0)"
    by (simp add: cut_step_def is_hit_def split: option.split)
  then show ?case using Cons by simp
qed

lemma cnt_scan: "cnt (scan_edges p1 p2 vs) = crossings p1 p2 vs"
  by (simp add: scan_edges_def crossings_def cnt_foldl)




lemma cut_unsplit: "crossings p1 p2 vs \<noteq> 2 \<Longrightarrow> cut vs p1 p2 gap = [vs]"
  by (simp add: cut.simps cnt_scan Let_def)





lemma crossings_flat: "crossings (Point 2 0) (Point 2 4) flat_triangle = 3"
  by (simp add: crossings_def flat_triangle_def upt_rec is_hit_def edge_hit_def intersectLines_def)










section \<open>\<^verbatim>\<open>createAlleys\<close> on a block that cannot be bisected\<close>

lemma sqrt5_lt4: "\<not> 4 < sqrt 5"
proof -
  have "sqrt 5 < 4" by (rule real_less_lsqrt) simp_all
  then show ?thesis by simp
qed

lemma longest_flat: "longest_edge flat_triangle = Some 0"
  by (simp add: longest_edge_def flat_triangle_def upt_rec distance_def Let_def sqrt5_lt4)

lemma bisect_flat: "bisect flat_triangle 0 (1 / 2) 0 gap = [flat_triangle]"
proof -
  have "bisect flat_triangle 0 (1 / 2) 0 gap = cut flat_triangle (Point 2 0) (Point 2 4) gap"
    by (simp add: bisect_def flat_triangle_def interpolate_def subtract_def)
  then show ?thesis by (simp add: cut_unsplit crossings_flat)
qed

lemma square_flat: "square flat_triangle = 2"
  by (simp add: square_def flat_triangle_def)

lemma createAlleys_flat_never_returns:
  assumes "createAlleys p r minSq gridChaos sizeChaos emptyProb split = Some y"
  shows "\<not> (p = flat_triangle \<and> minSq = 1 \<and> gridChaos = 0 \<and> sizeChaos = 0)"
proof (rule createAlleys.raw_induct
    [where P = "\<lambda>p r minSq gridChaos sizeChaos emptyProb split y.
        \<not> (p = flat_triangle \<and> minSq = 1 \<and> gridChaos = 0 \<and> sizeChaos = 0)", OF _ assms],
    goal_cases)
  case (1 self p r minSq gridChaos sizeChaos emptyProb split y)
  show ?case
  proof
    assume A: "p = flat_triangle \<and> minSq = 1 \<and> gridChaos = 0 \<and> sizeChaos = 0"
    obtain f1 r1 where a: "rng_float r = (f1, r1)" by (cases "rng_float r")
    obtain f2 r2 where b: "rng_float r1 = (f2, r2)" by (cases "rng_float r1")
    obtain f3 rb where c: "rng_float r2 = (f3, rb)" by (cases "rng_float r2")
    obtain f4 rc where d: "rng_float rb = (f4, rc)" by (cases "rng_float rb")
    obtain f5 rd where e: "rng_float rc = (f5, rd)" by (cases "rng_float rc")
    from A have eqs: "p = flat_triangle" "minSq = 1" "gridChaos = 0" "sizeChaos = 0"
      by simp_all
    from 1(2) [unfolded eqs] obtain res sp where
      "self flat_triangle rd 1 0 0 emptyProb sp = Some res"
      by (auto simp add: longest_flat bisect_flat square_flat a b c d e split: Option.bind_splits)
    from 1(1) [OF this] show False by simp
  qed
qed

text \<open>
  Claim C3 (the code at the failing input). The block is the triangle
  \<open>(0,0), (4,0), (2,1)\<close>, of area 2, with \<^verbatim>\<open>minSq = 1\<close> and both chaos parameters 0. The
  bisecting line is the perpendicular through the middle of the longest edge; it meets
  that edge and passes through the apex, which lies on two edges, so \<^verbatim>\<open>cut\<close> counts
  three crossings and returns the triangle unsplit. Its area is not below the threshold,
  so \<^verbatim>\<open>createAlleys\<close> calls itself on the same triangle, whatever the generator draws:
  the recursion never ends.
\<close>

theorem createAlleys_flat_diverges:
  "createAlleys flat_triangle (SeededRandom_new (Some 42) 0) 1 0 0 0.04 True = None"
proof (cases "createAlleys flat_triangle (SeededRandom_new (Some 42) 0) 1 0 0 0.04 True")
  case None
  then show ?thesis .
next
  case (Some y)
  then show ?thesis using createAlleys_flat_never_returns by blast
qed

subsection \<open>A block with two bars\<close>

lemma upt8: "[0..<8] = [0, 1, 2, 3, 4, 5, 6, 7]"
  by (simp add: upt_rec)

lemma dist_c:
  "distance (Point 0 0) (Point 20 0) = 20"
  "distance (Point 20 0) (Point 20 2) = 2"
  "distance (Point 20 2) (Point 2 2) = 18"
  "distance (Point 2 2) (Point 2 4) = 2"
  "distance (Point 2 4) (Point 19 4) = 17"
  "distance (Point 19 4) (Point 19 6) = 2"
  "distance (Point 19 6) (Point 0 6) = 19"
  "distance (Point 0 6) (Point 0 0) = 6"
  by (simp_all add: distance_def real_sqrt_unique)

lemma longest_c: "longest_edge c_block = Some 0"
  by (simp add: longest_edge_def c_block_def upt8 Let_def dist_c)

lemma hit_vertical:
  "\<not> is_hit (Point x 0) (Point x 20) [Point a b, Point a c] 0"
  by (simp add: is_hit_def edge_hit_def intersectLines_def)

lemma hit_horizontal:
  assumes "a \<noteq> c"
  shows "is_hit (Point x 0) (Point x 20) [Point a b, Point c b] 0
           \<longleftrightarrow> 0 \<le> (x - a) / (c - a) \<and> (x - a) / (c - a) \<le> 1"
proof -
  have n: "c - a \<noteq> 0" using assms by simp
  have "(20 * a - 20 * x) / (20 * c - 20 * a) = (20 * (a - x)) / (20 * (c - a))"
    by (simp only: right_diff_distrib)
  also have "\<dots> = (a - x) / (c - a)"
    by (rule mult_divide_mult_cancel_left) simp
  also have "\<dots> = (- (x - a)) / (c - a)"
    by (simp only: minus_diff_eq)
  also have "\<dots> = - ((x - a) / (c - a))"
    by (rule minus_divide_left [symmetric])
  finally have e: "(20 * a - 20 * x) / (20 * c - 20 * a) = - ((x - a) / (c - a))" .
  have "is_hit (Point x 0) (Point x 20) [Point a b, Point c b] 0
          \<longleftrightarrow> (20 * a - 20 * x) / (20 * c - 20 * a) \<le> 0 \<and>
               - 1 \<le> (20 * a - 20 * x) / (20 * c - 20 * a)"
    using assms by (simp add: is_hit_def edge_hit_def intersectLines_def)
  then show ?thesis unfolding e by simp
qed

lemma square_c: "square c_block = 82"
  by (simp add: square_def c_block_def)

lemma is_hit_edge:
  "is_hit p1 p2 vs i = is_hit p1 p2 [vs ! i, vs ! ((i + 1) mod length vs)] 0"
  by (simp add: is_hit_def edge_hit_def)

lemma crossings_c:
  assumes "2 \<le> x" "x \<le> 18"
  shows "crossings (Point x 0) (Point x 20) c_block = 4"
proof -
  let ?h = "is_hit (Point x 0) (Point x 20) c_block"
  have h0: "?h 0"
    using assms by (subst is_hit_edge) (simp add: c_block_def hit_horizontal)
  have h1: "\<not> ?h 1"
    by (subst is_hit_edge) (simp add: c_block_def hit_vertical)
  have h2: "?h 2"
    using assms by (subst is_hit_edge) (simp add: c_block_def hit_horizontal)
  have h3: "\<not> ?h 3"
    by (subst is_hit_edge) (simp add: c_block_def hit_vertical)
  have h4: "?h 4"
    using assms by (subst is_hit_edge) (simp add: c_block_def hit_horizontal)
  have h5: "\<not> ?h 5"
    by (subst is_hit_edge) (simp add: c_block_def hit_vertical)
  have h6: "?h 6"
    using assms by (subst is_hit_edge) (simp add: c_block_def hit_horizontal)
  have h7: "\<not> ?h 7"
    by (subst is_hit_edge) (simp add: c_block_def hit_vertical)
  have "length c_block = 8" by (simp add: c_block_def)
  then show ?thesis
    unfolding crossings_def using h0 h1 h2 h3 h4 h5 h6 h7 by (simp add: upt8)
qed

lemma bisect_c:
  assumes "1 / 10 \<le> ratio" "ratio \<le> 9 / 10"
  shows "bisect c_block 0 ratio 0 gap = [c_block]"
proof -
  have "bisect c_block 0 ratio 0 gap
          = cut c_block (Point (20 * ratio) 0) (Point (20 * ratio) 20) gap"
    by (simp add: bisect_def c_block_def interpolate_def subtract_def)
  moreover have "crossings (Point (20 * ratio) 0) (Point (20 * ratio) 20) c_block = 4"
    using assms by (intro crossings_c) simp_all
  ultimately show ?thesis by (simp add: cut_unsplit)
qed

lemma rng_float_range: "0 \<le> fst (rng_float r)" "fst (rng_float r) < 1"
proof -
  let ?s = "(seed r * SeededRandom_G) mod SeededRandom_N"
  have v: "fst (rng_float r) = real ?s / real SeededRandom_N"
    by (simp add: rng_float_def rng_next_def Let_def)
  show "0 \<le> fst (rng_float r)" unfolding v by simp
  have "?s < SeededRandom_N" by (simp add: SeededRandom_N_def)
  then show "fst (rng_float r) < 1" unfolding v by (simp add: SeededRandom_N_def)
qed

lemma ratio_range:
  fixes g f :: real
  assumes "0 \<le> g" "g \<le> 1" "0 \<le> f" "f < 1"
  shows "1 / 10 \<le> (1 - 0.8 * g) / 2 + f * (0.8 * g)"
    and "(1 - 0.8 * g) / 2 + f * (0.8 * g) \<le> 9 / 10"
proof -
  have a: "0 \<le> f * g" using assms by simp
  have "f * g \<le> 1 * g"
    using assms by (intro mult_right_mono) simp_all
  then have b: "f * g \<le> g" by simp
  have e1: "(1 - 0.8 * g) / 2 = 1 / 2 - 2 / 5 * g"
    by (simp add: diff_divide_distrib)
  have e2: "f * (0.8 * g) = 4 / 5 * (f * g)"
    by simp
  note e = e1 e2
  show "1 / 10 \<le> (1 - 0.8 * g) / 2 + f * (0.8 * g)"
    unfolding e using a assms by linarith
  show "(1 - 0.8 * g) / 2 + f * (0.8 * g) \<le> 9 / 10"
    unfolding e using b assms by linarith
qed

lemma threshold_c:
  fixes sc f :: real
  assumes "0 \<le> sc" "sc \<le> 1 / 2" "0 \<le> f" "f < 1"
  shows "\<not> square c_block < 40 * 2 powr (4 * sc * (f - 0.5))"
proof -
  have "sc * (f - 0.5) \<le> sc * 0.5"
    using assms by (intro mult_left_mono) simp_all
  also have "\<dots> \<le> 1 / 2 * 0.5"
    using assms by (intro mult_right_mono) simp_all
  finally have "4 * sc * (f - 0.5) \<le> 1" by simp
  then have "2 powr (4 * sc * (f - 0.5)) \<le> 2 powr 1"
    by (intro powr_mono) simp_all
  then have "40 * 2 powr (4 * sc * (f - 0.5)) \<le> 80" by simp
  then show ?thesis by (simp add: square_c)
qed

lemma bisect_c_chaos:
  assumes "0 \<le> g" "g \<le> 1" "0 \<le> f1" "f1 < 1"
  shows "bisect c_block 0 ((1 - 0.8 * g) / 2 + f1 * (0.8 * g))
           ((f2 - 0.5) * (pi / 6 * g * (if square c_block < 40 * 4 then 0 else 1))) gap
         = [c_block]"
proof -
  have "(f2 - 0.5) * (pi / 6 * g * (if square c_block < 40 * 4 then 0 else 1)) = 0"
    by (simp add: square_c)
  then show ?thesis
    using bisect_c [OF ratio_range [OF assms]] by (simp only:)
qed

lemma createAlleys_c_block_never_returns:
  assumes "createAlleys p r minSq gridChaos sizeChaos emptyProb split = Some y"
  shows "\<not> (p = c_block \<and> minSq = 40 \<and> 0 \<le> gridChaos \<and> gridChaos \<le> 1
            \<and> 0 \<le> sizeChaos \<and> sizeChaos \<le> 1 / 2)"
proof (rule createAlleys.raw_induct
    [where P = "\<lambda>p r minSq gridChaos sizeChaos emptyProb split y.
        \<not> (p = c_block \<and> minSq = 40 \<and> 0 \<le> gridChaos \<and> gridChaos \<le> 1
            \<and> 0 \<le> sizeChaos \<and> sizeChaos \<le> 1 / 2)", OF _ assms],
    goal_cases)
  case (1 self p r minSq gridChaos sizeChaos emptyProb split y)
  show ?case
  proof
    assume A: "p = c_block \<and> minSq = 40 \<and> 0 \<le> gridChaos \<and> gridChaos \<le> 1
            \<and> 0 \<le> sizeChaos \<and> sizeChaos \<le> 1 / 2"
    obtain f1 r1 where a: "rng_float r = (f1, r1)" by (cases "rng_float r")
    obtain f2 r2 where b: "rng_float r1 = (f2, r2)" by (cases "rng_float r1")
    obtain f3 rb where c: "rng_float r2 = (f3, rb)" by (cases "rng_float r2")
    obtain f4 rc where d: "rng_float rb = (f4, rc)" by (cases "rng_float rb")
    obtain f5 rd where e: "rng_float rc = (f5, rd)" by (cases "rng_float rc")
    from A have eqs: "p = c_block" "minSq = 40" by simp_all
    from A have g: "0 \<le> gridChaos" "gridChaos \<le> 1" by simp_all
    from A have s: "0 \<le> sizeChaos" "sizeChaos \<le> 1 / 2" by simp_all
    have f1: "0 \<le> f1" "f1 < 1" using rng_float_range [of r] a by simp_all
    have f3: "0 \<le> f3" "f3 < 1" using rng_float_range [of r2] c by simp_all
    note B = bisect_c_chaos [OF g f1]
    have T: "(square c_block < 40 * 2 powr (4 * sizeChaos * (f3 - 0.5))) = False"
      using threshold_c [OF s f3] by simp
    from 1(2) [unfolded eqs] obtain res sp where
      "self c_block rd 40 gridChaos sizeChaos emptyProb sp = Some res"
      apply (simp only: longest_c option.case Let_def a b c d e prod.case B each_half.simps
          T if_False)
      apply (auto split: Option.bind_splits)
      done
    from 1(1) [OF this] show False using A by simp
  qed
qed

text \<open>
  The same on a block that is not degenerate. On the C-shaped block the bisecting line
  crosses both bars, four edges in all, for every ratio the generator can draw, and the
  area 82 lies between \<^verbatim>\<open>2 * minSq\<close> and \<^verbatim>\<open>4 * minSq\<close>, so the block is neither split nor
  accepted as a building: the recursion never ends for every grid chaos in \<open>[0, 1]\<close>,
  every size chaos in \<open>[0, 1/2]\<close> and every state of the generator.
\<close>

lemma createAlleys_c_block_diverges:
  "createAlleys c_block (SeededRandom_new (Some 42) 0) 40 0.3 0.3 0.04 True = None"
proof (cases "createAlleys c_block (SeededRandom_new (Some 42) 0) 40 0.3 0.3 0.04 True")
  case None
  then show ?thesis .
next
  case (Some y)
  from createAlleys_c_block_never_returns [OF this] show ?thesis by simp
qed


section \<open>Properties of the path search\<close>


lemma pos_less: "a \<in> set xs \<Longrightarrow> pos xs a < length xs"
  unfolding pos_def by (induction xs) auto

lemma pos_append: "a \<in> set xs \<Longrightarrow> pos (xs @ ys) a = pos xs a"
  unfolding pos_def by (induction xs) auto

lemma pos_snoc_new: "a \<notin> set xs \<Longrightarrow> pos (xs @ [a]) a = length xs"
  unfolding pos_def by (induction xs) auto

text \<open>Facts about one pass over the links of the current node.\<close>

lemma relax_open_mono: "set (fst st) \<subseteq> set (fst (relax C cur cs st nc))"
  by (cases st; cases nc) (auto simp: relax_def Let_def)

lemma foldl_relax_open_mono:
  "set (fst st) \<subseteq> set (fst (foldl (relax C cur cs) st ls))"
proof (induction ls arbitrary: st)
  case Nil
  then show ?case by simp
next
  case (Cons nc ls)
  have "set (fst st) \<subseteq> set (fst (relax C cur cs st nc))" by (rule relax_open_mono)
  also have "\<dots> \<subseteq> set (fst (foldl (relax C cur cs) (relax C cur cs st nc) ls))"
    by (rule Cons.IH)
  finally show ?case by simp
qed

lemma relax_adds: "fst nc \<notin> set C \<Longrightarrow> fst nc \<in> set (fst (relax C cur cs st nc))"
  by (cases st; cases nc) (auto simp: relax_def Let_def)

lemma foldl_relax_adds:
  "nc \<in> set ls \<Longrightarrow> fst nc \<notin> set C \<Longrightarrow> fst nc \<in> set (fst (foldl (relax C cur cs) st ls))"
proof (induction ls arbitrary: st)
  case Nil
  then show ?case by simp
next
  case (Cons x ls)
  show ?case
  proof (cases "nc = x")
    case True
    have "fst nc \<in> set (fst (relax C cur cs st x))"
      using Cons.prems(2) True by (simp add: relax_adds)
    then show ?thesis using foldl_relax_open_mono [of "relax C cur cs st x" C cur cs ls] by auto
  next
    case False
    then show ?thesis using Cons by simp
  qed
qed

lemma relax_open_origin:
  "n \<in> set (fst (relax C cur cs st nc)) \<Longrightarrow> n \<in> set (fst st) \<or> (n = fst nc \<and> n \<notin> set C)"
  by (cases st; cases nc) (auto simp: relax_def Let_def split: if_splits)

lemma foldl_relax_open_origin:
  "n \<in> set (fst (foldl (relax C cur cs) st ls)) \<Longrightarrow>
   n \<in> set (fst st) \<or> (n \<in> fst ` set ls \<and> n \<notin> set C)"
proof (induction ls arbitrary: st)
  case Nil
  then show ?case by simp
next
  case (Cons x ls)
  from Cons.IH [of "relax C cur cs st x"] Cons.prems
  have "n \<in> set (fst (relax C cur cs st x)) \<or> (n \<in> fst ` set ls \<and> n \<notin> set C)" by simp
  then show ?case using relax_open_origin [of n C cur cs st x] by auto
qed

lemma relax_came_from:
  "fst (snd (relax C cur cs st nc)) n = Some m \<Longrightarrow>
   fst (snd st) n = Some m \<or> (m = cur \<and> n \<notin> set C)"
  by (cases st; cases nc) (auto simp: relax_def Let_def split: if_splits)

lemma foldl_relax_came_from:
  "fst (snd (foldl (relax C cur cs) st ls)) n = Some m \<Longrightarrow>
   fst (snd st) n = Some m \<or> (m = cur \<and> n \<notin> set C)"
proof (induction ls arbitrary: st)
  case Nil
  then show ?case by simp
next
  case (Cons x ls)
  from Cons.IH [of "relax C cur cs st x"] Cons.prems
  have "fst (snd (relax C cur cs st x)) n = Some m \<or> (m = cur \<and> n \<notin> set C)" by simp
  then show ?case using relax_came_from [of C cur cs st x n m] by auto
qed

lemma expand_open_mono: "set (fst st) \<subseteq> set (fst (expand g C cur st))"
  unfolding expand_def by (rule foldl_relax_open_mono)

lemma expand_adds: "b \<in> nbrs g cur \<Longrightarrow> b \<notin> set C \<Longrightarrow> b \<in> set (fst (expand g C cur st))"
  unfolding expand_def nbrs_def using foldl_relax_adds by fastforce

lemma expand_open_origin:
  "n \<in> set (fst (expand g C cur st)) \<Longrightarrow> n \<in> set (fst st) \<or> (n \<in> nbrs g cur \<and> n \<notin> set C)"
  unfolding expand_def nbrs_def by (rule foldl_relax_open_origin)

lemma expand_came_from:
  "fst (snd (expand g C cur st)) n = Some m \<Longrightarrow>
   fst (snd st) n = Some m \<or> (m = cur \<and> n \<notin> set C)"
  unfolding expand_def by (rule foldl_relax_came_from)

lemma came_from_ok_expand:
  assumes "came_from_ok C cf"
  shows "came_from_ok (C @ [cur]) (fst (snd (expand g (C @ [cur]) cur (opn, cf, gs))))"
  unfolding came_from_ok_def
proof (intro allI impI)
  fix n m
  assume "fst (snd (expand g (C @ [cur]) cur (opn, cf, gs))) n = Some m"
  from expand_came_from [OF this]
  consider "cf n = Some m" | "m = cur" "n \<notin> set (C @ [cur])" by auto
  then show "m \<in> set (C @ [cur]) \<and> (n \<in> set (C @ [cur]) \<longrightarrow> pos (C @ [cur]) m < pos (C @ [cur]) n)"
  proof cases
    case 1
    with assms have m: "m \<in> set C" and lt: "n \<in> set C \<longrightarrow> pos C m < pos C n"
      by (auto simp: came_from_ok_def)
    show ?thesis
    proof (intro conjI impI)
      show "m \<in> set (C @ [cur])" using m by simp
      assume n: "n \<in> set (C @ [cur])"
      show "pos (C @ [cur]) m < pos (C @ [cur]) n"
      proof (cases "n \<in> set C")
        case True
        then show ?thesis using m lt by (simp add: pos_append)
      next
        case False
        then have "n = cur" using n by simp
        then show ?thesis using False m by (simp add: pos_append pos_snoc_new pos_less)
      qed
    qed
  next
    case 2
    then show ?thesis by simp
  qed
qed

lemma buildPath_loop_returns:
  assumes "came_from_ok C cf"
  shows "\<exists>p. buildPath_loop cf n path = Some p"
proof (induction "if n \<in> set C then pos C n else length C" arbitrary: n path rule: less_induct)
  case less
  show ?case
  proof (cases "cf n")
    case None
    then show ?thesis by (subst buildPath_loop.simps) simp
  next
    case (Some m)
    with assms have m: "m \<in> set C" and lt: "n \<in> set C \<longrightarrow> pos C m < pos C n"
      by (auto simp: came_from_ok_def)
    have "(if m \<in> set C then pos C m else length C) < (if n \<in> set C then pos C n else length C)"
      using m lt by (simp add: pos_less)
    from less [OF this] obtain p where "buildPath_loop cf m (path @ [m]) = Some p" by blast
    then show ?thesis using Some by (subst buildPath_loop.simps) simp
  qed
qed

lemma aStar_loop_returns:
  "came_from_ok C cf \<Longrightarrow> \<exists>r. aStar_loop g goal C opn cf gs = Some r"
proof (induction g goal C opn cf gs rule: aStar_loop.induct)
  case (1 g goal C cf gs)
  then show ?case by (simp add: aStar_loop.simps)
next
  case (2 g goal C cur opn cf gs)
  show ?case
  proof (cases "cur = goal")
    case True
    from buildPath_loop_returns [OF "2.prems"] obtain p where "buildPath cf cur = Some p"
      unfolding buildPath_def by blast
    then show ?thesis using True by (simp add: aStar_loop.simps)
  next
    case False
    let ?st = "expand g (C @ [cur]) cur (opn, cf, gs)"
    have "came_from_ok (C @ [cur]) (fst (snd ?st))"
      using "2.prems" by (rule came_from_ok_expand)
    from "2.IH" [OF False refl refl this] show ?thesis
      using False by (simp add: aStar_loop.simps Let_def)
  qed
qed


lemma aStar_loop_null:
  "aStar_loop g goal C opn cf gs = Some Null \<Longrightarrow>
   \<exists>F. set opn \<subseteq> F \<and> goal \<notin> F \<and> (\<forall>a\<in>F. \<forall>b\<in>nbrs g a. b \<notin> set C \<longrightarrow> b \<in> F)"
proof (induction g goal C opn cf gs rule: aStar_loop.induct)
  case (1 g goal C cf gs)
  show ?case by (rule exI [of _ "{}"]) simp
next
  case (2 g goal C cur opn cf gs)
  have ne: "cur \<noteq> goal"
  proof
    assume "cur = goal"
    then show False using "2.prems" by (auto simp: aStar_loop.simps)
  qed
  let ?st = "expand g (C @ [cur]) cur (opn, cf, gs)"
  have "aStar_loop g goal (C @ [cur]) (fst ?st) (fst (snd ?st)) (snd (snd ?st)) = Some Null"
    using "2.prems" ne by (simp add: aStar_loop.simps Let_def)
  from "2.IH" [OF ne refl refl this] obtain F where
    F: "set (fst ?st) \<subseteq> F" "goal \<notin> F"
       "\<forall>a\<in>F. \<forall>b\<in>nbrs g a. b \<notin> set (C @ [cur]) \<longrightarrow> b \<in> F"
    by blast
  have opn: "set opn \<subseteq> F"
    using expand_open_mono [of "(opn, cf, gs)" g "C @ [cur]" cur] F(1) by auto
  have "\<forall>a\<in>insert cur F. \<forall>b\<in>nbrs g a. b \<notin> set C \<longrightarrow> b \<in> insert cur F"
  proof (intro ballI impI)
    fix a b assume a: "a \<in> insert cur F" and b: "b \<in> nbrs g a" "b \<notin> set C"
    show "b \<in> insert cur F"
    proof (cases "b = cur")
      case True then show ?thesis by simp
    next
      case False
      then have nb: "b \<notin> set (C @ [cur])" using b(2) by simp
      show ?thesis
      proof (cases "a = cur")
        case True
        then have "b \<in> set (fst ?st)" using b(1) nb by (simp add: expand_adds)
        then show ?thesis using F(1) by auto
      next
        case False
        then show ?thesis using a b(1) nb F(3) by auto
      qed
    qed
  qed
  then show ?case using opn F(2) ne
    by (intro exI [of _ "insert cur F"]) auto
qed

lemma step_rel_mono: "X \<subseteq> Y \<Longrightarrow> step_rel g Y \<subseteq> step_rel g X"
  by (auto simp: step_rel_def)

lemma aStar_loop_path:
  "aStar_loop g goal C opn cf gs = Some (Path p) \<Longrightarrow>
   \<exists>n\<in>set opn. (n, goal) \<in> (step_rel g (set C))\<^sup>*"
proof (induction g goal C opn cf gs rule: aStar_loop.induct)
  case (1 g goal C cf gs)
  then show ?case by (simp add: aStar_loop.simps)
next
  case (2 g goal C cur opn cf gs)
  show ?case
  proof (cases "cur = goal")
    case True
    then show ?thesis by auto
  next
    case False
    let ?st = "expand g (C @ [cur]) cur (opn, cf, gs)"
    have "aStar_loop g goal (C @ [cur]) (fst ?st) (fst (snd ?st)) (snd (snd ?st)) = Some (Path p)"
      using "2.prems" False by (simp add: aStar_loop.simps Let_def)
    from "2.IH" [OF False refl refl this] obtain n where
      n: "n \<in> set (fst ?st)" "(n, goal) \<in> (step_rel g (set (C @ [cur])))\<^sup>*"
      by blast
    have sub: "(step_rel g (set (C @ [cur])))\<^sup>* \<subseteq> (step_rel g (set C))\<^sup>*"
      by (rule rtrancl_mono, rule step_rel_mono) auto
    have ng: "(n, goal) \<in> (step_rel g (set C))\<^sup>*" using n(2) sub by blast
    from expand_open_origin [OF n(1)]
    consider "n \<in> set opn" | "n \<in> nbrs g cur" "n \<notin> set (C @ [cur])" by auto
    then show ?thesis
    proof cases
      case 1
      then show ?thesis using ng by auto
    next
      case 2
      then have "(cur, n) \<in> step_rel g (set C)" by (simp add: step_rel_def)
      then have "(cur, goal) \<in> (step_rel g (set C))\<^sup>*"
        using ng by (rule converse_rtrancl_into_rtrancl)
      then show ?thesis by simp
    qed
  qed
qed

lemma route_rtrancl:
  "is_route g ex ns \<Longrightarrow> (hd ns, last ns) \<in> (step_rel g (set ex))\<^sup>*"
proof (induction g ex ns rule: is_route.induct)
  case (1 g ex)
  then show ?case by simp
next
  case (2 g ex a)
  then show ?case by simp
next
  case (3 g ex a b ns)
  then have "(a, b) \<in> step_rel g (set ex)" and "(b, last (b # ns)) \<in> (step_rel g (set ex))\<^sup>*"
    by (simp_all add: step_rel_def)
  then show ?case by (simp add: converse_rtrancl_into_rtrancl)
qed

lemma rtrancl_route:
  "(s, t) \<in> (step_rel g (set ex))\<^sup>* \<Longrightarrow> \<exists>ns. is_route g ex ns \<and> hd ns = s \<and> last ns = t"
proof (induction rule: converse_rtrancl_induct)
  case base
  show ?case by (rule exI [of _ "[t]"]) simp
next
  case (step a b)
  then obtain ns where ns: "is_route g ex ns" "hd ns = b" "last ns = t" by blast
  then obtain r where r: "ns = b # r" by (cases ns) auto
  have "is_route g ex (a # b # r)" using step(1) ns(1) r by (simp add: step_rel_def)
  then show ?case using ns(3) r by (intro exI [of _ "a # b # r"]) simp
qed

lemma path_exists_rtrancl:
  "path_exists g ex s t \<longleftrightarrow> (s, t) \<in> (step_rel g (set ex))\<^sup>*"
  unfolding path_exists_def using route_rtrancl rtrancl_route by blast

lemma closed_set_blocks:
  assumes "s \<in> F" "\<forall>a\<in>F. \<forall>b\<in>nbrs g a. b \<notin> X \<longrightarrow> b \<in> F" "(s, t) \<in> (step_rel g X)\<^sup>*"
  shows "t \<in> F"
  using assms(3,1,2) by (induction rule: rtrancl_induct) (auto simp: step_rel_def)

text \<open>
  Claim C7. For every node store, start, goal and optional exclusion list, \<^verbatim>\<open>aStar\<close>
  returns (the search and \<^verbatim>\<open>buildPath\<close> both end), and it returns \<^verbatim>\<open>null\<close> exactly when
  there is no route from start to goal along the links whose nodes after the start are
  all outside the exclusion list. When start and goal are the same node the result is the
  path holding just that node, whether or not it is excluded.
\<close>

theorem aStar_null_iff_no_path:
  "(aStar g start goal exclude = Some Null
      \<longleftrightarrow> \<not> path_exists g (case exclude of Some ex \<Rightarrow> ex | None \<Rightarrow> []) start goal)
   \<and> (\<exists>r. aStar g start goal exclude = Some r)
   \<and> aStar g start start exclude = Some (Path [start])"
proof (intro conjI)
  let ?ex = "case exclude of Some ex \<Rightarrow> ex | None \<Rightarrow> []"
  have ok: "came_from_ok ?ex Map.empty" by (simp add: came_from_ok_def)
  show ret: "\<exists>r. aStar g start goal exclude = Some r"
    unfolding aStar_def by (rule aStar_loop_returns [OF ok])
  show "aStar g start start exclude = Some (Path [start])"
    by (simp add: aStar_def aStar_loop.simps buildPath_def buildPath_loop.simps)
  show "aStar g start goal exclude = Some Null \<longleftrightarrow> \<not> path_exists g ?ex start goal"
  proof
    assume "aStar g start goal exclude = Some Null"
    then have "aStar_loop g goal ?ex [start] Map.empty [start \<mapsto> 0] = Some Null"
      by (simp add: aStar_def)
    from aStar_loop_null [OF this] obtain F where F: "start \<in> F" "goal \<notin> F"
      "\<forall>a\<in>F. \<forall>b\<in>nbrs g a. b \<notin> set ?ex \<longrightarrow> b \<in> F"
      by auto
    show "\<not> path_exists g ?ex start goal"
    proof
      assume "path_exists g ?ex start goal"
      then have "(start, goal) \<in> (step_rel g (set ?ex))\<^sup>*" by (simp add: path_exists_rtrancl)
      from closed_set_blocks [OF F(1) F(3) this] F(2) show False by simp
    qed
  next
    assume np: "\<not> path_exists g ?ex start goal"
    from ret obtain r where r: "aStar g start goal exclude = Some r" by blast
    show "aStar g start goal exclude = Some Null"
    proof (cases r)
      case Null
      with r show ?thesis by simp
    next
      case (Path p)
      with r have "aStar_loop g goal ?ex [start] Map.empty [start \<mapsto> 0] = Some (Path p)"
        by (simp add: aStar_def)
      from aStar_loop_path [OF this] have "(start, goal) \<in> (step_rel g (set ?ex))\<^sup>*" by simp
      with np show ?thesis by (simp add: path_exists_rtrancl)
    qed
  qed
qed

lemma chain3_eval: "chain3 = [(0, [(1, 1)]), (1, [(0, 1), (2, 1)]), (2, [(1, 1)])]"
  by (simp add: chain3_def link_def links_of_def)

lemmas astar_eval = aStar_def aStar_loop.simps expand_def relax_def links_of_def
  score_ge_def buildPath_def buildPath_loop.simps

theorem aStar_null_iff_no_path_witness:
  "aStar chain3 0 2 (Some [1]) = Some Null
   \<and> \<not> path_exists chain3 [1] 0 2
   \<and> aStar chain3 0 2 None = Some (Path [2, 1, 0])
   \<and> path_exists chain3 [] 0 2
   \<and> aStar chain3 1 1 (Some [1]) = Some (Path [1])"
proof -
  have a: "aStar chain3 0 2 (Some [1]) = Some Null"
    by (simp add: chain3_eval astar_eval)
  have b: "aStar chain3 0 2 None = Some (Path [2, 1, 0])"
    by (simp add: chain3_eval astar_eval)
  from aStar_null_iff_no_path [of chain3 0 2 "Some [1]"] a
  have c: "\<not> path_exists chain3 [1] 0 2" by simp
  from aStar_null_iff_no_path [of chain3 0 2 None] b
  have d: "path_exists chain3 [] 0 2" by simp
  from aStar_null_iff_no_path [of chain3 1 1 "Some [1]"]
  have e: "aStar chain3 1 1 (Some [1]) = Some (Path [1])" by simp
  show ?thesis using a b c d e by simp
qed

lemma four_nodes_eval:
  "four_nodes = ([(0, []), (1, []), (2, []), (3, [])], \<lparr>nodes = [0, 1, 2, 3]\<rparr>)"
  by (simp add: four_nodes_def graph_add_def fresh_node_def)

lemma diamond_eval:
  "diamond = [(0, [(1, 1), (2, 10)]), (1, [(0, 1), (3, 1)]),
              (2, [(0, 10), (3, 1)]), (3, [(1, 1), (2, 1)])]"
  by (simp add: diamond_def four_nodes_eval link_def links_of_def)

text \<open>
  Claim C6. The four nodes A, B, C, D are the objects 0, 1, 2, 3 created by four calls of
  \<^verbatim>\<open>add\<close>, linked symmetrically by \<^verbatim>\<open>a.link(b, 1)\<close>, \<^verbatim>\<open>a.link(c, 10)\<close>, \<^verbatim>\<open>b.link(d, 1)\<close>
  and \<^verbatim>\<open>c.link(d, 1)\<close>. \<^verbatim>\<open>aStar(A, D)\<close> returns the three-node path D, B, A.
\<close>

theorem aStar_diamond_through_B:
  "aStar diamond 0 3 None = Some (Path [3, 1, 0])"
  by (simp add: diamond_eval astar_eval)

section \<open>Properties of gate selection\<close>




lemma selectGate_gates: "fst (selectGate st gate i) = fst st @ [gate]"
  by (cases st) (simp add: selectGate_def)


















text \<open>
  The version with the \<^verbatim>\<open>do ... while\<close> loop always selects a gate when there is a
  candidate: there the failure is raised exactly when there are no candidates.
\<close>

lemma select_while_keeps: "fst st \<noteq> [] \<Longrightarrow> fst (fst (select_while st r)) \<noteq> []"
proof (induction st r rule: select_while.induct)
  case (1 st r)
  obtain i r1 where ir: "rng_int r 0 (real (length (snd st))) = (i, r1)"
    by (cases "rng_int r 0 (real (length (snd st)))")
  let ?st1 = "selectGate st (snd st ! nat i) (nat i)"
  have g: "fst ?st1 \<noteq> []" by (simp add: selectGate_gates)
  show ?case
  proof (cases "length (snd ?st1) \<ge> 3")
    case True
    from "1.IH" [OF ir [symmetric] refl refl refl True g] show ?thesis
      using True ir by (subst select_while.simps) (simp add: Let_def)
  next
    case False
    then show ?thesis using g ir by (subst select_while.simps) (simp add: Let_def)
  qed
qed

lemma select_while_selects: "fst (fst (select_while st r)) \<noteq> []"
proof -
  obtain i r1 where ir: "rng_int r 0 (real (length (snd st))) = (i, r1)"
    by (cases "rng_int r 0 (real (length (snd st)))")
  let ?st1 = "selectGate st (snd st ! nat i) (nat i)"
  have g: "fst ?st1 \<noteq> []" by (simp add: selectGate_gates)
  show ?thesis
  proof (cases "length (snd ?st1) \<ge> 3")
    case True
    then show ?thesis using ir select_while_keeps [OF g, of r1]
      by (subst select_while.simps) (simp add: Let_def)
  next
    case False
    then show ?thesis using g ir by (subst select_while.simps) (simp add: Let_def)
  qed
qed

lemma buildGates_do_while_gate_bound:
  "(buildGates_do_while enclosed wshape reserved r = Inl (Error ''Bad walled area shape!'')
      \<longleftrightarrow> entrances_of enclosed wshape reserved = [])
   \<and> (entrances_of enclosed wshape reserved \<noteq> [] \<longrightarrow>
        (\<exists>selected r1. buildGates_do_while enclosed wshape reserved r = Inr (selected, r1)
           \<and> selected \<noteq> []))"
  using select_while_selects [of "([], entrances_of enclosed wshape reserved)" r]
  by (auto simp: buildGates_do_while_def Let_def split: prod.splits)

section \<open>\<^verbatim>\<open>cut\<close> leaves the objects it is given unchanged\<close>



lemma frame_refl: "frame s s"
  by (simp add: frame_def)

lemma frame_trans: "frame a b \<Longrightarrow> frame b c \<Longrightarrow> frame a c"
  unfolding frame_def by (metis le_trans less_le_trans)

lemma frame_new_point: "frame s (snd (new_point v s))"
  by (simp add: frame_def new_point_def)

lemma frame_new_polygon: "frame s (snd (new_polygon vs s))"
  by (simp add: frame_def new_polygon_def)

lemma fst_new_point: "fst (new_point v s) = plim s"
  by (simp add: new_point_def)

lemma fst_new_polygon: "fst (new_polygon vs s) = alim s"
  by (simp add: new_polygon_def)

lemma frame_write_point:
  "frame s s1 \<Longrightarrow> plim s \<le> a \<Longrightarrow> frame s (h_normalize a len s1)"
  by (simp add: frame_def h_normalize_def)

lemma frame_unshift: "frame s s1 \<Longrightarrow> alim s \<le> p \<Longrightarrow> frame s (h_unshift p v s1)"
  by (simp add: frame_def h_unshift_def)

lemma frame_push: "frame s s1 \<Longrightarrow> alim s \<le> p \<Longrightarrow> frame s (h_push p v s1)"
  by (simp add: frame_def h_push_def)

lemma frame_h_add: "frame s (snd (h_add a b s))"
  unfolding h_add_def by (rule frame_new_point)

lemma frame_h_subtract: "frame s (snd (h_subtract a b s))"
  unfolding h_subtract_def by (rule frame_new_point)

lemma frame_h_scale: "frame s (snd (h_scale a f s))"
  unfolding h_scale_def by (rule frame_new_point)

lemma frame_h_rotate90: "frame s (snd (h_rotate90 a s))"
  unfolding h_rotate90_def by (rule frame_new_point)

lemma frame_h_norm: "frame s (snd (h_norm a len s))"
proof -
  have "frame s (snd (h_clone a s))" unfolding h_clone_def by (rule frame_new_point)
  moreover have "plim s \<le> fst (h_clone a s)" by (simp add: h_clone_def new_point_def)
  ultimately have "frame s (h_normalize (fst (h_clone a s)) len (snd (h_clone a s)))"
    by (rule frame_write_point)
  then show ?thesis by (simp add: h_norm_def split_def Let_def)
qed

lemma frame_h_vectori: "frame s (snd (h_vectori poly i s))"
  unfolding h_vectori_def Let_def by (rule frame_h_subtract)

lemma frame_scan_step: "frame s (snd acc) \<Longrightarrow> frame s (snd (scan_step_h vs p1 p2 acc i))"
  by (cases acc)
    (auto simp: scan_step_h_def split: option.splits intro: frame_trans frame_new_point)

lemma frame_scan_foldl:
  "frame s (snd acc) \<Longrightarrow> frame s (snd (foldl (scan_step_h vs p1 p2) acc is))"
  by (induction "is" arbitrary: acc) (simp_all add: frame_scan_step)

lemma frame_scan: "frame s (snd (scan_h vs p1 p2 s))"
  unfolding scan_h_def by (rule frame_scan_foldl) (simp add: frame_refl)

lemma frame_order_halves: "frame s (snd (order_halves this dx1 dy1 sc h1 h2 s))"
  using frame_h_vectori [of s this "edge1 sc"]
  by (simp add: order_halves_def split_def Let_def)

lemma frame_peel_line: "frame s (snd (peel_line v1 v2 d s))"
proof -
  obtain v sa where a: "h_subtract v2 v1 s = (v, sa)" by (cases "h_subtract v2 v1 s")
  obtain rt sb where b: "h_rotate90 v sa = (rt, sb)" by (cases "h_rotate90 v sa")
  obtain n sc where c: "h_norm rt d sb = (n, sc)" by (cases "h_norm rt d sb")
  obtain a1 sd where d: "h_add v1 n sc = (a1, sd)" by (cases "h_add v1 n sc")
  obtain a2 se where e: "h_add v2 n sd = (a2, se)" by (cases "h_add v2 n sd")
  have "frame s sa" using frame_h_subtract [of s v2 v1] a by simp
  moreover have "frame sa sb" using frame_h_rotate90 [of sa v] b by simp
  ultimately have "frame s sb" by (rule frame_trans)
  moreover have "frame sb sc" using frame_h_norm [of sb rt d] c by simp
  ultimately have "frame s sc" by (rule frame_trans)
  moreover have "frame sc sd" using frame_h_add [of sc v1 n] d by simp
  ultimately have "frame s sd" by (rule frame_trans)
  moreover have "frame sd se" using frame_h_add [of sd v2 n] e by simp
  ultimately have "frame s se" by (rule frame_trans)
  then show ?thesis by (simp add: peel_line_def a b c d e)
qed

text \<open>The halves: new polygons holding new intersection points.\<close>

lemma make_halves_props:
  assumes "make_halves vs p1 p2 sc s = ((half1, half2, point1, point2), s1)"
  shows "frame s s1"
    and "alim s \<le> half1" "alim s \<le> half2" "half1 < alim s1" "half2 < alim s1"
    and "plim s \<le> point1" "plim s \<le> point2"
    and "arrays s1 half1 = point1 # slice vs (edge1 sc + 1) (edge2 sc + 1) @ [point2]"
    and "arrays s1 half2
           = point2 # (slice_from vs (edge2 sc + 1) @ slice vs 0 (edge1 sc + 1)) @ [point1]"
proof -
  obtain dir sa where a: "h_subtract p2 p1 s = (dir, sa)" by (cases "h_subtract p2 p1 s")
  obtain d1 sb where b: "h_scale dir (ratio1 sc) sa = (d1, sb)"
    by (cases "h_scale dir (ratio1 sc) sa")
  obtain q1 sc1 where c: "h_add p1 d1 sb = (q1, sc1)" by (cases "h_add p1 d1 sb")
  obtain d2 sd where d: "h_scale dir (ratio2 sc) sc1 = (d2, sd)"
    by (cases "h_scale dir (ratio2 sc) sc1")
  obtain q2 se where e: "h_add p1 d2 sd = (q2, se)" by (cases "h_add p1 d2 sd")
  let ?l1 = "slice vs (edge1 sc + 1) (edge2 sc + 1)"
  let ?l2 = "slice_from vs (edge2 sc + 1) @ slice vs 0 (edge1 sc + 1)"
  obtain g1 sf where f: "new_polygon ?l1 se = (g1, sf)" by (cases "new_polygon ?l1 se")
  define sg where "sg = h_push g1 q2 (h_unshift g1 q1 sf)"
  obtain g2 sh where h: "new_polygon ?l2 sg = (g2, sh)" by (cases "new_polygon ?l2 sg")
  define si where "si = h_push g2 q1 (h_unshift g2 q2 sh)"
  have res: "make_halves vs p1 p2 sc s = ((g1, g2, q1, q2), si)"
    using f h by (simp add: make_halves_def a b c d e sg_def si_def Let_def)
  with assms have eq: "half1 = g1" "half2 = g2" "point1 = q1" "point2 = q2" "s1 = si"
    by simp_all
  have fa: "frame s sa" using frame_h_subtract [of s p2 p1] a by simp
  have fb: "frame s sb" using fa frame_h_scale [of sa dir "ratio1 sc"] b
    by (auto intro: frame_trans)
  have fc: "frame s sc1" using fb frame_h_add [of sb p1 d1] c by (auto intro: frame_trans)
  have fd: "frame s sd" using fc frame_h_scale [of sc1 dir "ratio2 sc"] d
    by (auto intro: frame_trans)
  have fe: "frame s se" using fd frame_h_add [of sd p1 d2] e by (auto intro: frame_trans)
  have ff: "frame s sf" using fe frame_new_polygon [of se ?l1] f by (auto intro: frame_trans)
  have q1: "q1 = plim sb" using c by (simp add: h_add_def new_point_def)
  have q2: "q2 = plim sd" using e by (simp add: h_add_def new_point_def)
  have g1: "g1 = alim se" using f by (simp add: new_polygon_def)
  have g2: "g2 = alim sg" using h by (simp add: new_polygon_def)
  have g1s: "alim s \<le> g1" using fe g1 by (simp add: frame_def)
  have fg: "frame s sg" unfolding sg_def using ff g1s by (intro frame_push frame_unshift)
  have fh: "frame s sh" using fg frame_new_polygon [of sg ?l2] h by (auto intro: frame_trans)
  have g2s: "alim s \<le> g2" using fg g2 by (simp add: frame_def)
  have fi: "frame s si" unfolding si_def using fh g2s by (intro frame_push frame_unshift)
  show "frame s s1" using fi eq by simp
  show "alim s \<le> half1" using g1s eq by simp
  show "alim s \<le> half2" using g2s eq by simp
  show "plim s \<le> point1" using fb q1 eq by (simp add: frame_def)
  show "plim s \<le> point2" using fd q2 eq by (simp add: frame_def)
  have af: "arrays sf g1 = ?l1" "alim sf = Suc g1"
    using f by (auto simp: new_polygon_def)
  have ag: "arrays sg g1 = q1 # ?l1 @ [q2]" "alim sg = Suc g1"
    using af by (simp_all add: sg_def h_push_def h_unshift_def)
  have ah: "arrays sh g2 = ?l2" "alim sh = Suc g2" "arrays sh g1 = q1 # ?l1 @ [q2]"
    using h ag g2 by (auto simp: new_polygon_def)
  have ai: "arrays si g2 = q2 # ?l2 @ [q1]" "arrays si g1 = q1 # ?l1 @ [q2]" "alim si = Suc g2"
    using ah ag g2 by (simp_all add: si_def h_push_def h_unshift_def)
  show "arrays s1 half1 = point1 # ?l1 @ [point2]" using ai eq by simp
  show "arrays s1 half2 = point2 # ?l2 @ [point1]" using ai eq by simp
  show "half1 < alim s1" using ai ag g2 eq by simp
  show "half2 < alim s1" using ai eq by simp
qed

lemma cut_h_no_gap:
  assumes "\<not> 0 < gap" "cut_h this p1 p2 gap s = Some (res, s1)"
  shows "frame s s1"
proof -
  obtain sc sa where sc: "scan_h (arrays s this) p1 p2 s = (sc, sa)"
    by (cases "scan_h (arrays s this) p1 p2 s")
  have fa: "frame s sa" using frame_scan [of s "arrays s this" p1 p2] sc by simp
  show ?thesis
  proof (cases "cnt sc = 2")
    case True
    obtain half1 half2 point1 point2 sb where
      mh: "make_halves (arrays s this) p1 p2 sc sa = ((half1, half2, point1, point2), sb)"
      by (cases "make_halves (arrays s this) p1 p2 sc sa") auto
    have fb: "frame s sb" using fa make_halves_props(1) [OF mh] by (rule frame_trans)
    have "s1 = snd (order_halves this (px (points s p2) - px (points s p1))
        (py (points s p2) - py (points s p1)) sc half1 half2 sb)"
      using assms True sc mh by (simp add: cut_h.simps Let_def)
    then show ?thesis using fb frame_order_halves by (auto intro: frame_trans)
  next
    case False
    then have "s1 = snd (new_polygon (arrays s this) sa)"
      using assms sc by (simp add: cut_h.simps Let_def split_def)
    then show ?thesis using fa frame_new_polygon by (auto intro: frame_trans)
  qed
qed

lemma peel_h_frame:
  assumes "peel_h this v1 d s = Some (h, s1)"
  shows "frame s s1"
proof -
  let ?vs = "arrays s this"
  let ?i2 = "case index_of ?vs v1 of None \<Rightarrow> 0
             | Some i1 \<Rightarrow> if i1 = length ?vs - 1 then 0 else i1 + 1"
  have ne: "?vs \<noteq> []" using assms by (auto simp: peel_h.simps Let_def split: if_splits)
  obtain a1 a2 sa where pl: "peel_line v1 (?vs ! ?i2) d s = ((a1, a2), sa)"
    by (cases "peel_line v1 (?vs ! ?i2) d s") auto
  have fa: "frame s sa" using frame_peel_line [of s v1 "?vs ! ?i2" d] pl by simp
  from assms ne pl obtain res where "cut_h this a1 a2 0 sa = Some (res, s1)"
    by (auto simp: peel_h.simps Let_def split: Option.bind_splits)
  then have "frame sa s1" by (intro cut_h_no_gap) simp_all
  with fa show ?thesis by (rule frame_trans)
qed

lemma cut_h_frame:
  assumes "cut_h this p1 p2 gap s = Some (res, s1)"
  shows "frame s s1"
proof (cases "0 < gap")
  case False
  then show ?thesis using assms by (rule cut_h_no_gap)
next
  case gap: True
  obtain sc sa where sc: "scan_h (arrays s this) p1 p2 s = (sc, sa)"
    by (cases "scan_h (arrays s this) p1 p2 s")
  have fa: "frame s sa" using frame_scan [of s "arrays s this" p1 p2] sc by simp
  show ?thesis
  proof (cases "cnt sc = 2")
    case True
    obtain half1 half2 point1 point2 sb where
      mh: "make_halves (arrays s this) p1 p2 sc sa = ((half1, half2, point1, point2), sb)"
      by (cases "make_halves (arrays s this) p1 p2 sc sa") auto
    have fb: "frame s sb" using fa make_halves_props(1) [OF mh] by (rule frame_trans)
    from assms True sc mh gap obtain h1 sc1 h2 sd where
      p1: "peel_h half1 point2 (gap / 2) sb = Some (h1, sc1)" and
      p2: "peel_h half2 point1 (gap / 2) sc1 = Some (h2, sd)" and
      fin: "s1 = snd (order_halves this (px (points s p2) - px (points s p1))
        (py (points s p2) - py (points s p1)) sc h1 h2 sd)"
      by (auto simp: cut_h.simps Let_def split: Option.bind_splits)
    have "frame s sc1" using fb peel_h_frame [OF p1] by (rule frame_trans)
    then have "frame s sd" using peel_h_frame [OF p2] by (rule frame_trans)
    then show ?thesis unfolding fin using frame_order_halves by (auto intro: frame_trans)
  next
    case False
    then have "s1 = snd (new_polygon (arrays s this) sa)"
      using assms sc by (simp add: cut_h.simps Let_def split_def)
    then show ?thesis using fa frame_new_polygon by (auto intro: frame_trans)
  qed
qed



lemma frame_plim: "frame s s1 \<Longrightarrow> plim s \<le> plim s1"
  by (simp add: frame_def)

lemma frame_alim: "frame s s1 \<Longrightarrow> alim s \<le> alim s1"
  by (simp add: frame_def)

lemma frame_arrays: "frame s s1 \<Longrightarrow> p < alim s \<Longrightarrow> arrays s1 p = arrays s p"
  by (simp add: frame_def)

lemma frame_points: "frame s s1 \<Longrightarrow> a < plim s \<Longrightarrow> points s1 a = points s a"
  by (simp add: frame_def)

lemma made_from_later:
  assumes "made_from s vs s1 r" "frame s1 s2"
  shows "made_from s vs s2 r"
proof -
  have r: "alim s \<le> r" "r < alim s1" "set (arrays s1 r) \<subseteq> set vs \<union> {v. plim s \<le> v}"
    using assms(1) by (simp_all add: made_from_def)
  have "alim s1 \<le> alim s2" using assms(2) by (rule frame_alim)
  moreover have "arrays s2 r = arrays s1 r" using assms(2) r(2) by (rule frame_arrays)
  ultimately show ?thesis using r unfolding made_from_def by simp
qed

lemma fresh_weaken:
  assumes "frame s s1" "A \<subseteq> B \<union> {v. plim s1 \<le> v}"
  shows "A \<subseteq> B \<union> {v. plim s \<le> v}"
proof
  fix x assume "x \<in> A"
  with assms(2) have "x \<in> B \<or> plim s1 \<le> x" by auto
  moreover have "plim s \<le> plim s1" using assms(1) by (rule frame_plim)
  ultimately show "x \<in> B \<union> {v. plim s \<le> v}" by auto
qed

lemma made_from_earlier:
  assumes "made_from s1 ws s2 r" "frame s s1" "set ws \<subseteq> set vs \<union> {v. plim s \<le> v}"
  shows "made_from s vs s2 r"
proof -
  have "alim s1 \<le> r" "r < alim s2" using assms(1) by (simp_all add: made_from_def)
  moreover have "alim s \<le> alim s1" using assms(2) by (rule frame_alim)
  ultimately have a: "alim s \<le> r" "r < alim s2" by simp_all
  have "set (arrays s2 r) \<subseteq> set ws \<union> {v. plim s1 \<le> v}"
    using assms(1) by (simp add: made_from_def)
  with assms(2) have "set (arrays s2 r) \<subseteq> set ws \<union> {v. plim s \<le> v}"
    by (rule fresh_weaken)
  then have "set (arrays s2 r) \<subseteq> set vs \<union> {v. plim s \<le> v}"
    using assms(3) by blast
  with a show ?thesis by (simp add: made_from_def)
qed

lemma slice_subset: "set (slice vs a b) \<subseteq> set vs"
  unfolding slice_def by (rule subset_trans [OF set_drop_subset set_take_subset])

lemma slice_from_subset: "set (slice_from vs a) \<subseteq> set vs"
  unfolding slice_from_def by (rule set_drop_subset)

lemma order_halves_result:
  "set (fst (order_halves this dx1 dy1 sc h1 h2 s)) = {h1, h2}"
proof -
  obtain v sa where "h_vectori this (edge1 sc) s = (v, sa)"
    by (cases "h_vectori this (edge1 sc) s")
  then show ?thesis by (auto simp: order_halves_def)
qed

lemma order_halves_ne: "fst (order_halves this dx1 dy1 sc h1 h2 s) \<noteq> []"
proof -
  obtain v sa where "h_vectori this (edge1 sc) s = (v, sa)"
    by (cases "h_vectori this (edge1 sc) s")
  then show ?thesis by (simp add: order_halves_def)
qed

lemma halves_made_from:
  assumes "make_halves vs p1 p2 sc s = ((half1, half2, point1, point2), s1)"
  shows "made_from s vs s1 half1" and "made_from s vs s1 half2"
proof -
  note p = make_halves_props [OF assms]
  have a: "set (slice vs (edge1 sc + 1) (edge2 sc + 1)) \<subseteq> set vs \<union> {v. plim s \<le> v}"
    using slice_subset [of vs] by blast
  have b: "set (slice_from vs (edge2 sc + 1) @ slice vs 0 (edge1 sc + 1))
      \<subseteq> set vs \<union> {v. plim s \<le> v}"
    using slice_subset [of vs 0] slice_from_subset [of vs] by (simp add: le_supI1)
  have q: "point1 \<in> set vs \<union> {v. plim s \<le> v}" "point2 \<in> set vs \<union> {v. plim s \<le> v}"
    using p(6,7) by simp_all
  have "set (arrays s1 half1) \<subseteq> set vs \<union> {v. plim s \<le> v}"
    unfolding p(8) using a q by simp
  then show "made_from s vs s1 half1"
    unfolding made_from_def using p(2,4) by simp
  have "set (arrays s1 half2) \<subseteq> set vs \<union> {v. plim s \<le> v}"
    unfolding p(9) using b q by simp
  then show "made_from s vs s1 half2"
    unfolding made_from_def using p(3,5) by simp
qed

lemma cut_h_no_gap_result:
  assumes "\<not> 0 < gap"
  shows "\<exists>res s1. cut_h this p1 p2 gap s = Some (res, s1) \<and> res \<noteq> []
           \<and> (\<forall>r\<in>set res. made_from s (arrays s this) s1 r)"
proof -
  let ?vs = "arrays s this"
  obtain sc sa where sc: "scan_h ?vs p1 p2 s = (sc, sa)" by (cases "scan_h ?vs p1 p2 s")
  have fa: "frame s sa" using frame_scan [of s ?vs p1 p2] sc by simp
  show ?thesis
  proof (cases "cnt sc = 2")
    case True
    obtain half1 half2 point1 point2 sb where
      mh: "make_halves ?vs p1 p2 sc sa = ((half1, half2, point1, point2), sb)"
      by (cases "make_halves ?vs p1 p2 sc sa") auto
    let ?o = "order_halves this (px (points s p2) - px (points s p1))
        (py (points s p2) - py (points s p1)) sc half1 half2 sb"
    have c: "cut_h this p1 p2 gap s = Some ?o"
      using assms True sc mh by (simp add: cut_h.simps Let_def)
    have sub: "set ?vs \<subseteq> set ?vs \<union> {v. plim s \<le> v}" by simp
    have "made_from s ?vs sb half1" "made_from s ?vs sb half2"
      using halves_made_from [OF mh] fa sub by (auto intro: made_from_earlier)
    then have m: "made_from s ?vs (snd ?o) half1" "made_from s ?vs (snd ?o) half2"
      using frame_order_halves by (auto intro: made_from_later)
    have ne: "fst ?o \<noteq> []" by (rule order_halves_ne)
    have "set (fst ?o) = {half1, half2}" by (rule order_halves_result)
    then have "\<forall>r\<in>set (fst ?o). made_from s ?vs (snd ?o) r" using m by simp
    then show ?thesis using c ne by (intro exI [of _ "fst ?o"] exI [of _ "snd ?o"]) simp
  next
    case False
    let ?n = "new_polygon ?vs sa"
    have c: "cut_h this p1 p2 gap s = Some ([fst ?n], snd ?n)"
      using assms False sc by (simp add: cut_h.simps Let_def split_def)
    have "alim s \<le> alim sa" using fa by (rule frame_alim)
    then have "made_from s ?vs (snd ?n) (fst ?n)"
      by (simp add: made_from_def new_polygon_def)
    then show ?thesis using c by simp
  qed
qed

lemma peel_h_result:
  assumes "arrays s this \<noteq> []" "this < alim s"
  shows "\<exists>h s1. peel_h this v1 d s = Some (h, s1) \<and> made_from s (arrays s this) s1 h"
proof -
  let ?vs = "arrays s this"
  let ?i2 = "case index_of ?vs v1 of None \<Rightarrow> 0
             | Some i1 \<Rightarrow> if i1 = length ?vs - 1 then 0 else i1 + 1"
  obtain a1 a2 sa where pl: "peel_line v1 (?vs ! ?i2) d s = ((a1, a2), sa)"
    by (cases "peel_line v1 (?vs ! ?i2) d s") auto
  have fa: "frame s sa" using frame_peel_line [of s v1 "?vs ! ?i2" d] pl by simp
  then have same: "arrays sa this = ?vs" using assms(2) by (rule frame_arrays)
  from cut_h_no_gap_result [of 0 this a1 a2 sa] obtain res s1 where
    c: "cut_h this a1 a2 0 sa = Some (res, s1)" "res \<noteq> []"
       "\<forall>r\<in>set res. made_from sa (arrays sa this) s1 r"
    by auto
  have p: "peel_h this v1 d s = Some (hd res, s1)"
    using assms(1) pl c(1) by (simp add: peel_h.simps Let_def)
  have "made_from sa ?vs s1 (hd res)" using c(2,3) same by simp
  then have "made_from s ?vs s1 (hd res)"
    using fa by (rule made_from_earlier) simp
  with p show ?thesis by blast
qed

lemma cut_h_result:
  "\<exists>res s1. cut_h this p1 p2 gap s = Some (res, s1) \<and> res \<noteq> []
     \<and> (\<forall>r\<in>set res. made_from s (arrays s this) s1 r)"
proof (cases "0 < gap")
  case False
  then show ?thesis by (rule cut_h_no_gap_result)
next
  case gap: True
  let ?vs = "arrays s this"
  obtain sc sa where sc: "scan_h ?vs p1 p2 s = (sc, sa)" by (cases "scan_h ?vs p1 p2 s")
  have fa: "frame s sa" using frame_scan [of s ?vs p1 p2] sc by simp
  show ?thesis
  proof (cases "cnt sc = 2")
    case False
    let ?n = "new_polygon ?vs sa"
    have c: "cut_h this p1 p2 gap s = Some ([fst ?n], snd ?n)"
      using False sc by (simp add: cut_h.simps Let_def split_def)
    have "alim s \<le> alim sa" using fa by (rule frame_alim)
    then have "made_from s ?vs (snd ?n) (fst ?n)"
      by (simp add: made_from_def new_polygon_def)
    then show ?thesis using c by simp
  next
    case True
    obtain half1 half2 point1 point2 sb where
      mh: "make_halves ?vs p1 p2 sc sa = ((half1, half2, point1, point2), sb)"
      by (cases "make_halves ?vs p1 p2 sc sa") auto
    note mp = make_halves_props [OF mh]
    note hm = halves_made_from [OF mh]
    have sub: "set ?vs \<subseteq> set ?vs \<union> {v. plim s \<le> v}" by simp
    have ne1: "arrays sb half1 \<noteq> []" by (simp add: mp(8))
    from peel_h_result [OF ne1 mp(4), of point2 "gap / 2"] obtain h1 sc1 where
      p1: "peel_h half1 point2 (gap / 2) sb = Some (h1, sc1)"
      and m1: "made_from sb (arrays sb half1) sc1 h1" by blast
    have f1: "frame sb sc1" using p1 by (rule peel_h_frame)
    have a2: "arrays sc1 half2 = arrays sb half2" "half2 < alim sc1"
      using frame_arrays [OF f1 mp(5)] frame_alim [OF f1] mp(5) by simp_all
    have ne2: "arrays sc1 half2 \<noteq> []" by (simp add: a2 mp(9))
    from peel_h_result [OF ne2 a2(2), of point1 "gap / 2"] obtain h2 sd where
      p2: "peel_h half2 point1 (gap / 2) sc1 = Some (h2, sd)"
      and m2: "made_from sc1 (arrays sc1 half2) sd h2" by blast
    have f2: "frame sc1 sd" using p2 by (rule peel_h_frame)
    let ?o = "order_halves this (px (points s p2) - px (points s p1))
        (py (points s p2) - py (points s p1)) sc h1 h2 sd"
    have c: "cut_h this p1 p2 gap s = Some ?o"
      using gap True sc mh p1 p2 by (simp add: cut_h.simps Let_def)
    have fsb: "frame s sb" using fa mp(1) by (rule frame_trans)
    have fsc: "frame s sc1" using fsb f1 by (rule frame_trans)
    have "set (arrays sb half1) \<subseteq> set ?vs \<union> {v. plim sa \<le> v}"
      using hm(1) by (simp add: made_from_def)
    with fa have s1: "set (arrays sb half1) \<subseteq> set ?vs \<union> {v. plim s \<le> v}"
      by (rule fresh_weaken)
    have "set (arrays sb half2) \<subseteq> set ?vs \<union> {v. plim sa \<le> v}"
      using hm(2) by (simp add: made_from_def)
    with fa have "set (arrays sb half2) \<subseteq> set ?vs \<union> {v. plim s \<le> v}"
      by (rule fresh_weaken)
    then have s2: "set (arrays sc1 half2) \<subseteq> set ?vs \<union> {v. plim s \<le> v}"
      by (simp add: a2(1))
    have "made_from s ?vs sc1 h1" using m1 fsb s1 by (rule made_from_earlier)
    then have "made_from s ?vs sd h1" using f2 by (rule made_from_later)
    then have r1: "made_from s ?vs (snd ?o) h1"
      using frame_order_halves by (rule made_from_later)
    have "made_from s ?vs sd h2" using m2 fsc s2 by (rule made_from_earlier)
    then have r2: "made_from s ?vs (snd ?o) h2"
      using frame_order_halves by (rule made_from_later)
    have ne: "fst ?o \<noteq> []" by (rule order_halves_ne)
    have "set (fst ?o) = {h1, h2}" by (rule order_halves_result)
    then have "\<forall>r\<in>set (fst ?o). made_from s ?vs (snd ?o) r" using r1 r2 by simp
    then show ?thesis using c ne by (intro exI [of _ "fst ?o"] exI [of _ "snd ?o"]) simp
  qed
qed

text \<open>
  Claim C10. Let the receiver be an existing polygon object whose vertices are existing
  point objects. For any two point objects as the line and any gap, \<^verbatim>\<open>cut\<close> returns, and
  afterwards the receiver's vertex array is the same list of the same point objects, each
  with the coordinates it had; indeed every point object and every vertex array that
  existed before the call is unchanged. Every polygon returned is a new object, and each
  of its vertices is a vertex of the receiver or a point object created during the call.
\<close>

theorem cut_leaves_receiver_unchanged:
  "this < alim s \<and> (\<forall>v\<in>set (arrays s this). v < plim s) \<longrightarrow>
     (\<exists>res s1. cut_h this p1 p2 gap s = Some (res, s1)
        \<and> arrays s1 this = arrays s this
        \<and> (\<forall>v\<in>set (arrays s this). points s1 v = points s v)
        \<and> value_of s1 (arrays s1 this) = value_of s (arrays s this)
        \<and> frame s s1
        \<and> res \<noteq> []
        \<and> (\<forall>r\<in>set res. made_from s (arrays s this) s1 r))"
proof (intro impI)
  assume pre: "this < alim s \<and> (\<forall>v\<in>set (arrays s this). v < plim s)"
  from cut_h_result [of this p1 p2 gap s] obtain res s1 where
    c: "cut_h this p1 p2 gap s = Some (res, s1)" "res \<noteq> []"
       "\<forall>r\<in>set res. made_from s (arrays s this) s1 r"
    by blast
  have f: "frame s s1" using c(1) by (rule cut_h_frame)
  have a: "arrays s1 this = arrays s this" using f pre by (intro frame_arrays) simp_all
  have p: "\<forall>v\<in>set (arrays s this). points s1 v = points s v"
    using f pre by (auto intro: frame_points)
  have v: "value_of s1 (arrays s1 this) = value_of s (arrays s this)"
    unfolding a value_of_def using p by simp
  show "\<exists>res s1. cut_h this p1 p2 gap s = Some (res, s1)
        \<and> arrays s1 this = arrays s this
        \<and> (\<forall>v\<in>set (arrays s this). points s1 v = points s v)
        \<and> value_of s1 (arrays s1 this) = value_of s (arrays s this)
        \<and> frame s s1
        \<and> res \<noteq> []
        \<and> (\<forall>r\<in>set res. made_from s (arrays s this) s1 r)"
    using c f a p v by blast
qed

theorem cut_leaves_receiver_unchanged_witness:
  "(0::nat) < alim rect_store
   \<and> arrays rect_store 0 = [0, 1, 2, 3] \<and> plim rect_store = 6
   \<and> value_of rect_store (arrays rect_store 0) = rect 4 4
   \<and> (\<exists>res s1. cut_h 0 4 5 2 rect_store = Some (res, s1)
         \<and> arrays s1 0 = [0, 1, 2, 3]
         \<and> value_of s1 (arrays s1 0) = rect 4 4
         \<and> alim rect_store \<le> hd res)"
proof -
  have pre: "(0::nat) < alim rect_store \<and> (\<forall>v\<in>set (arrays rect_store 0). v < plim rect_store)"
    by (simp add: rect_store_def)
  have a: "arrays rect_store 0 = [0, 1, 2, 3]" "plim rect_store = 6"
    by (simp_all add: rect_store_def)
  have v: "value_of rect_store (arrays rect_store 0) = rect 4 4"
    by (simp add: rect_store_def value_of_def rect_def)
  from cut_leaves_receiver_unchanged [of 0 rect_store 4 5 2] pre obtain res s1 where
    r: "cut_h 0 4 5 2 rect_store = Some (res, s1)" "arrays s1 0 = arrays rect_store 0"
       "value_of s1 (arrays s1 0) = value_of rect_store (arrays rect_store 0)"
       "res \<noteq> []"
       "\<forall>r\<in>set res. made_from rect_store (arrays rect_store 0) s1 r"
    by blast
  have "hd res \<in> set res" using r(4) by simp
  with r(5) have "alim rect_store \<le> hd res" by (simp add: made_from_def)
  with r(1-3) a v pre show ?thesis by auto
qed

end
